theory Spec2Isabelle
  imports Complex_Main
begin

section \<open>Move-sequence ingestion: \<open>moves_to_nested_dict\<close>\<close>

text \<open>
  A Python \<open>dict\<close> keeps its keys in insertion order, and storing under a key that is
  already present keeps the key's position. It is modelled as an association list with
  distinct keys.
\<close>

fun dict_set :: "'k \<Rightarrow> 'v \<Rightarrow> ('k \<times> 'v) list \<Rightarrow> ('k \<times> 'v) list" where
  "dict_set k v [] = [(k, v)]"
| "dict_set k v ((k', v') # d) =
     (if k' = k then (k, v) # d else (k', v') # dict_set k v d)"

text \<open>
  The nested dictionary the function returns: keys are pairs of a move and the number of
  games that ended right after it, values are nested dictionaries again.
\<close>

datatype nested_dict = Dict "((string \<times> nat) \<times> nested_dict) list"

text \<open>First loop: \<open>for lst in moves: if not lst == []: d[lst[0]] = []\<close>.\<close>

fun init_groups ::
  "string list list \<Rightarrow> (string \<times> string list list) list \<Rightarrow> (string \<times> string list list) list"
where
  "init_groups [] d = d"
| "init_groups (lst # moves) d =
     (if lst \<noteq> [] then init_groups moves (dict_set (hd lst) [] d) else init_groups moves d)"

text \<open>
  Second loop: \<open>for lst in moves: if not lst == []: d[lst[0]].append(lst[1:])\<close>.
  The key is always present, since the first loop stored it; the \<open>None\<close> branch is
  never taken.
\<close>

fun fill_groups ::
  "string list list \<Rightarrow> (string \<times> string list list) list \<Rightarrow> (string \<times> string list list) list"
where
  "fill_groups [] d = d"
| "fill_groups (lst # moves) d =
     (if lst \<noteq> [] then
        (case map_of d (hd lst) of
           Some v \<Rightarrow> fill_groups moves (dict_set (hd lst) (v @ [tl lst]) d)
         | None \<Rightarrow> fill_groups moves d)
      else fill_groups moves d)"

definition total_len :: "string list list \<Rightarrow> nat" where
  "total_len moves = sum_list (map length moves)"

lemma dict_set_mem:
  "(k', v') \<in> set (dict_set k v d) \<Longrightarrow> (k' = k \<and> v' = v) \<or> (k', v') \<in> set d"
  by (induction d) (auto split: if_splits)

lemma dict_set_keys: "fst ` set (dict_set k v d) = insert k (fst ` set d)"
  by (induction d) force+

lemma dict_set_has: "(k, v) \<in> set (dict_set k v d)"
  by (induction d) auto

lemma dict_set_distinct: "distinct (map fst d) \<Longrightarrow> distinct (map fst (dict_set k v d))"
  by (induction d) (auto simp: dict_set_keys)

lemma dict_set_value:
  assumes "distinct (map fst d)" and "(k, v') \<in> set (dict_set k v d)"
  shows "v' = v"
  using eq_key_imp_eq_value[OF dict_set_distinct[OF assms(1)] assms(2) dict_set_has] .

text \<open>
  What a group can hold after the second loop: its old content and the tails of the
  non-empty sequences that start with its key.
\<close>

definition group_bound :: "string \<Rightarrow> string list list \<Rightarrow> nat" where
  "group_bound k moves = total_len (filter (\<lambda>l. l \<noteq> [] \<and> hd l = k) moves)"

lemma group_bound_Cons:
  "group_bound k (lst # moves) =
     (if lst \<noteq> [] \<and> hd lst = k then length lst else 0) + group_bound k moves"
  by (simp add: group_bound_def total_len_def)

lemma group_bound_le: "group_bound k moves \<le> total_len moves"
  by (induction moves) (auto simp: group_bound_def total_len_def)

lemma fill_groups_mem:
  "(k, v) \<in> set (fill_groups moves d) \<Longrightarrow> distinct (map fst d) \<Longrightarrow>
     \<exists>v0. (k, v0) \<in> set d \<and>
       (total_len v + length v = total_len v0 + length v0 + group_bound k moves)"
proof (induction moves arbitrary: d)
  case Nil
  then show ?case by (auto simp: group_bound_def total_len_def)
next
  case (Cons lst moves)
  show ?case
  proof (cases "lst \<noteq> [] \<and> map_of d (hd lst) \<noteq> None")
    case False
    then have eq: "fill_groups (lst # moves) d = fill_groups moves d"
      by (auto split: option.splits)
    from Cons.IH[OF Cons.prems(1)[unfolded eq] Cons.prems(2)]
    obtain v0 where v0: "(k, v0) \<in> set d"
      "total_len v + length v = total_len v0 + length v0 + group_bound k moves"
      by blast
    have "\<not> (lst \<noteq> [] \<and> hd lst = k)"
    proof
      assume a: "lst \<noteq> [] \<and> hd lst = k"
      with False have "map_of d k = None" by auto
      with v0(1) show False by (metis map_of_eq_None_iff fst_conv image_eqI)
    qed
    with v0 show ?thesis by (auto simp: group_bound_Cons)
  next
    case True
    then obtain w where w: "lst \<noteq> []" "map_of d (hd lst) = Some w" by auto
    let ?d = "dict_set (hd lst) (w @ [tl lst]) d"
    have eq: "fill_groups (lst # moves) d = fill_groups moves ?d"
      using w by simp
    have dist: "distinct (map fst ?d)" using Cons.prems(2) by (rule dict_set_distinct)
    from Cons.IH[OF Cons.prems(1)[unfolded eq] dist]
    obtain v1 where v1: "(k, v1) \<in> set ?d"
      "total_len v + length v = total_len v1 + length v1 + group_bound k moves"
      by blast
    show ?thesis
    proof (cases "k = hd lst")
      case True
      with v1(1) have "v1 = w @ [tl lst]"
        using dict_set_value[OF Cons.prems(2)] by blast
      moreover have "(k, w) \<in> set d" using w(2) True by (auto dest: map_of_SomeD)
      moreover have "length (tl lst) + 1 = length lst" using w(1) by (cases lst) auto
      ultimately show ?thesis using v1(2) True w(1)
        by (intro exI[of _ w]) (auto simp: group_bound_Cons total_len_def)
    next
      case False
      with v1(1) have "(k, v1) \<in> set d" by (auto dest: dict_set_mem)
      with v1(2) False show ?thesis by (auto simp: group_bound_Cons)
    qed
  qed
qed

lemma init_groups_mem:
  "(k, v) \<in> set (init_groups moves d) \<Longrightarrow> (k, v) \<in> set d \<or> v = []"
  by (induction moves arbitrary: d) (auto split: if_splits dest: dict_set_mem)

lemma init_groups_keys:
  "(k, v) \<in> set (init_groups moves d) \<Longrightarrow>
     k \<in> fst ` set d \<or> (\<exists>l \<in> set moves. l \<noteq> [] \<and> hd l = k)"
proof (induction moves arbitrary: d)
  case Nil
  then show ?case by force
next
  case (Cons lst moves)
  show ?case
  proof (cases "lst = []")
    case True
    with Cons show ?thesis by auto
  next
    case False
    with Cons.prems have "(k, v) \<in> set (init_groups moves (dict_set (hd lst) [] d))" by simp
    from Cons.IH[OF this] show ?thesis
    proof
      assume "k \<in> fst ` set (dict_set (hd lst) [] d)"
      then show ?thesis using False by (auto simp: dict_set_keys)
    qed auto
  qed
qed

lemma init_groups_distinct:
  "distinct (map fst d) \<Longrightarrow> distinct (map fst (init_groups moves d))"
  by (induction moves arbitrary: d) (auto simp: dict_set_distinct)

lemma group_bound_pos:
  "l \<in> set moves \<Longrightarrow> l \<noteq> [] \<Longrightarrow> hd l = k \<Longrightarrow> 0 < group_bound k moves"
  by (induction moves) (auto simp: group_bound_Cons)

lemma groups_smaller:
  assumes "(k, v) \<in> set (fill_groups moves (init_groups moves []))"
  shows "total_len v < total_len moves"
proof -
  have dist: "distinct (map fst (init_groups moves []))"
    by (rule init_groups_distinct) simp
  from fill_groups_mem[OF assms dist]
  obtain v0 where v0: "(k, v0) \<in> set (init_groups moves [])"
    "total_len v + length v = total_len v0 + length v0 + group_bound k moves"
    by blast
  from init_groups_mem[OF v0(1)] have "v0 = []" by auto
  moreover from init_groups_keys[OF v0(1)] have "0 < group_bound k moves"
    by (auto intro: group_bound_pos)
  ultimately have gb: "total_len v + length v = group_bound k moves" "0 < group_bound k moves"
    using v0(2) by (simp_all add: total_len_def)
  have "0 < length v"
  proof (cases v)
    case Nil
    with gb show ?thesis by (simp add: total_len_def)
  qed simp
  with gb group_bound_le[of k moves] show ?thesis by linarith
qed

function moves_to_nested_dict :: "string list list \<Rightarrow> nested_dict" where
  "moves_to_nested_dict moves =
     (if length moves = 0 \<or> length (hd moves) = 0 then Dict []
      else if length moves = 1 \<and> length (hd moves) = 1 then
        Dict [((hd (hd moves), 1), Dict [])]
      else
        Dict (map (\<lambda>(move, group).
                     ((move, count_list group []), moves_to_nested_dict group))
                (fill_groups moves (init_groups moves []))))"
  by pat_completeness auto
termination
  by (relation "measure total_len") (auto dest: groups_smaller)

declare moves_to_nested_dict.simps [simp del]


section \<open>The tree objects and the store\<close>

text \<open>
  The trees are Python objects that refer to each other (\<open>_subtrees\<close> downwards,
  \<open>_parent_tree\<close> upwards) and are mutated in place. An object is an address, and the store
  maps every address to the fields of its object. The class of an object (\<open>TMTree\<close>,
  \<open>FileTree\<close>, \<open>DirectoryTree\<close>, \<open>ChessTree\<close>) is the field \<open>kind\<close>.
\<close>

type_synonym addr = nat

type_synonym rectangle = "int \<times> int \<times> int \<times> int"

datatype kind = Generic | File | Directory | ChessMove

record node =
  name :: string
  rect :: "rectangle option"
  parent_tree :: "addr option"
  colour :: "int \<times> int \<times> int"
  subtrees :: "addr list"
  data_size :: int
  expanded :: bool
  kind :: kind

type_synonym heap = "addr \<Rightarrow> node"

text \<open>
  The exceptions a call can end with: the module's own \<open>OperationNotSupportedError\<close>, and
  the ones the interpreter raises (an attribute of \<open>None\<close>, subscripting \<open>None\<close>, a
  division by zero, \<open>list.remove\<close> of an absent element).
\<close>

datatype error =
  OperationNotSupportedError | AttributeError | TypeError | ZeroDivisionError | ValueError

text \<open>
  A call ends normally, or with an exception, and in both cases leaves a store behind;
  \<open>OutOfFuel\<close> stands for a traversal that did not end within the given number of steps
  (the recursions and \<open>while\<close> loops below follow the references of the store, which may
  be cyclic in an ill-formed store).
\<close>

datatype outcome = Done heap | Raise error heap | OutOfFuel

fun heap_of :: "outcome \<Rightarrow> heap \<Rightarrow> heap" where
  "heap_of (Done h') h = h'"
| "heap_of (Raise e h') h = h'"
| "heap_of OutOfFuel h = h"

fun raised :: "outcome \<Rightarrow> error option" where
  "raised (Raise e h') = Some e"
| "raised _ = None"

subsection \<open>Construction\<close>

text \<open>
  \<open>TMTree.__init__\<close>. \<open>self\<close> is the address of the new object, \<open>cls\<close> its class and
  \<open>col\<close> the three values \<open>randint(0, 255)\<close> returned. The loop adds each subtree's size
  and makes the new object its parent.
\<close>

fun adopt :: "addr \<Rightarrow> addr list \<Rightarrow> heap \<Rightarrow> heap" where
  "adopt self [] h = h"
| "adopt self (subtree # rest) h =
     adopt self rest
       (let h1 = h(self := (h self)\<lparr>data_size := data_size (h self) + data_size (h subtree)\<rparr>)
        in h1(subtree := (h1 subtree)\<lparr>parent_tree := Some self\<rparr>))"

definition TMTree_init ::
  "addr \<Rightarrow> kind \<Rightarrow> int \<times> int \<times> int \<Rightarrow> string \<Rightarrow> addr list \<Rightarrow> int \<Rightarrow> heap \<Rightarrow> heap"
where
  "TMTree_init self cls col nm subs own_size h =
     (let h1 = h(self := \<lparr>name = nm, rect = None, parent_tree = None, colour = col,
                          subtrees = subs, data_size = own_size, expanded = False, kind = cls\<rparr>);
          h2 = adopt self subs h1
      in h2(self := (h2 self)\<lparr>expanded := (length subs \<noteq> 0)\<rparr>))"

definition FileTree_init ::
  "addr \<Rightarrow> int \<times> int \<times> int \<Rightarrow> string \<Rightarrow> int \<Rightarrow> heap \<Rightarrow> heap" where
  "FileTree_init self col nm own_size h = TMTree_init self File col nm [] own_size h"

definition DirectoryTree_init ::
  "addr \<Rightarrow> int \<times> int \<times> int \<Rightarrow> string \<Rightarrow> addr list \<Rightarrow> heap \<Rightarrow> heap" where
  "DirectoryTree_init self col nm subs h = TMTree_init self Directory col nm subs 1 h"

subsection \<open>The displayed tree\<close>

definition is_displayed_tree_leaf :: "heap \<Rightarrow> addr \<Rightarrow> bool" where
  "is_displayed_tree_leaf h self =
     (case parent_tree (h self) of
        None \<Rightarrow> \<not> expanded (h self)
      | Some parent \<Rightarrow> expanded (h parent) \<and> \<not> expanded (h self))"

definition expand :: "addr \<Rightarrow> heap \<Rightarrow> addr \<times> heap" where
  "expand self h =
     (if subtrees (h self) = [] then (self, h)
      else (hd (subtrees (h self)), h(self := (h self)\<lparr>expanded := True\<rparr>)))"

text \<open>\<open>for subtree in xs: subtree.f()\<close>, for a method \<open>f\<close> that only changes the store.\<close>

fun for_each :: "(addr \<Rightarrow> heap \<Rightarrow> heap option) \<Rightarrow> addr list \<Rightarrow> heap \<Rightarrow> heap option" where
  "for_each f [] h = Some h"
| "for_each f (subtree # rest) h =
     (case f subtree h of None \<Rightarrow> None | Some h' \<Rightarrow> for_each f rest h')"

text \<open>
  The loop of \<open>expand_all\<close>, which appends what every call returns to \<open>right_most\<close>.
\<close>

fun collect_each ::
  "(addr \<Rightarrow> heap \<Rightarrow> (addr \<times> heap) option) \<Rightarrow> addr list \<Rightarrow> addr list \<Rightarrow> heap \<Rightarrow>
     (addr list \<times> heap) option"
where
  "collect_each f [] right_most h = Some (right_most, h)"
| "collect_each f (subtree # rest) right_most h =
     (case f subtree h of
        None \<Rightarrow> None
      | Some (r, h') \<Rightarrow> collect_each f rest (right_most @ [r]) h')"

primrec expand_all :: "nat \<Rightarrow> addr \<Rightarrow> heap \<Rightarrow> (addr \<times> heap) option" where
  "expand_all 0 self h = None"
| "expand_all (Suc fuel) self h =
     (if subtrees (h self) = [] then Some (self, h)
      else
        (case collect_each (expand_all fuel) (subtrees (h self)) []
                (h(self := (h self)\<lparr>expanded := True\<rparr>)) of
           None \<Rightarrow> None
         | Some (right_most, h') \<Rightarrow> Some (last right_most, h')))"

text \<open>\<open>_unexpanded\<close>; the name cannot start with an underscore here.\<close>

primrec unexpanded :: "nat \<Rightarrow> addr \<Rightarrow> heap \<Rightarrow> heap option" where
  "unexpanded 0 self h = None"
| "unexpanded (Suc fuel) self h =
     (if subtrees (h self) = [] then Some h
      else for_each (unexpanded fuel) (subtrees (h self))
             (h(self := (h self)\<lparr>expanded := False\<rparr>)))"

definition collapse :: "nat \<Rightarrow> addr \<Rightarrow> heap \<Rightarrow> (addr \<times> heap) option" where
  "collapse fuel self h =
     (case parent_tree (h self) of
        None \<Rightarrow> Some (self, h)
      | Some parent \<Rightarrow>
          (let h1 = h(parent := (h parent)\<lparr>expanded := False\<rparr>)
           in case for_each (unexpanded fuel) (subtrees (h1 parent)) h1 of
                None \<Rightarrow> None
              | Some h' \<Rightarrow> Some (parent, h')))"

text \<open>
  \<open>collapse_all\<close>: the \<open>while\<close> loop, one step of \<open>steps\<close> for each iteration; every
  call of \<open>collapse\<close> gets \<open>fuel\<close>.
\<close>

primrec collapse_loop :: "nat \<Rightarrow> nat \<Rightarrow> addr \<Rightarrow> heap \<Rightarrow> (addr \<times> heap) option" where
  "collapse_loop 0 fuel cur h = None"
| "collapse_loop (Suc steps) fuel cur h =
     (case parent_tree (h cur) of
        None \<Rightarrow> Some (cur, h)
      | Some parent \<Rightarrow>
          (case collapse fuel cur h of
             None \<Rightarrow> None
           | Some (cur', h') \<Rightarrow> collapse_loop steps fuel cur' h'))"

definition collapse_all :: "nat \<Rightarrow> addr \<Rightarrow> heap \<Rightarrow> (addr \<times> heap) option" where
  "collapse_all fuel self h =
     (case parent_tree (h self) of
        None \<Rightarrow> Some (self, h)
      | Some parent \<Rightarrow> collapse_loop fuel fuel self h)"

subsection \<open>Layout\<close>

text \<open>
  The two loops of \<open>update_rectangles\<close> over all subtrees but the last, followed by the
  call on the last one with what remains. They differ only in the side they cut
  (\<open>by_width\<close>: the rectangle is wider than high and the width is cut), so one function
  stands for both. \<open>go\<close> is the recursive call, \<open>(ux, uy)\<close> is \<open>upper_left\<close>.
  \<open>math.floor(a * b / total)\<close> is taken as the exact \<open>a * b div total\<close>; the source
  goes through a float quotient, which is the same number as long as the quotient is
  exact in double precision.
\<close>

fun slice_loop ::
  "(addr \<Rightarrow> rectangle \<Rightarrow> heap \<Rightarrow> outcome) \<Rightarrow> bool \<Rightarrow> addr list \<Rightarrow> int \<Rightarrow> int \<times> int \<Rightarrow>
     rectangle \<Rightarrow> heap \<Rightarrow> outcome"
where
  "slice_loop go by_width [] tot (ux, uy) (x, y, w, ht) h = Done h"
| "slice_loop go by_width [lst] tot (ux, uy) (x, y, w, ht) h =
     (if by_width then go lst (ux, uy, w + x - ux, ht) h
      else go lst (ux, uy, w, y + ht - uy) h)"
| "slice_loop go by_width (subtree # rest) tot (ux, uy) (x, y, w, ht) h =
     (if tot = 0 then Raise ZeroDivisionError h
      else if by_width then
        (let width = (data_size (h subtree) * w) div tot
         in case go subtree (ux, uy, width, ht) h of
              Done h' \<Rightarrow> slice_loop go by_width rest tot (ux + width, uy) (x, y, w, ht) h'
            | out \<Rightarrow> out)
      else
        (let height = (data_size (h subtree) * ht) div tot
         in case go subtree (ux, uy, w, height) h of
              Done h' \<Rightarrow> slice_loop go by_width rest tot (ux, uy + height) (x, y, w, ht) h'
            | out \<Rightarrow> out))"

primrec update_rectangles :: "nat \<Rightarrow> addr \<Rightarrow> rectangle \<Rightarrow> heap \<Rightarrow> outcome" where
  "update_rectangles 0 self r h = OutOfFuel"
| "update_rectangles (Suc fuel) self r h =
     (let tot = sum_list (map (\<lambda>subtree. data_size (h subtree)) (subtrees (h self)));
          h1 = h(self := (h self)\<lparr>rect := Some r\<rparr>)
      in if subtrees (h self) = [] then Done h1
         else if length (subtrees (h self)) = 1 then
           update_rectangles fuel (hd (subtrees (h self))) r h1
         else
           slice_loop (update_rectangles fuel)
             (fst (snd (snd r)) > snd (snd (snd r)))
             (subtrees (h self)) tot (fst r, fst (snd r)) r h1)"



subsection \<open>Moving and resizing\<close>

text \<open>
  The three loops \<open>while curr._parent_tree is not None\<close> of \<open>move\<close> and
  \<open>change_size\<close>: each adds an amount to the size of every ancestor of \<open>cur\<close> (the source's \<open>curr\<close>) and ends at
  the root. The amount is read from the store in every iteration, as the source reads
  \<open>self.data_size\<close>.
\<close>

primrec walk_up :: "nat \<Rightarrow> (heap \<Rightarrow> int) \<Rightarrow> addr \<Rightarrow> heap \<Rightarrow> (addr \<times> heap) option" where
  "walk_up 0 amount cur h = None"
| "walk_up (Suc fuel) amount cur h =
     (case parent_tree (h cur) of
        None \<Rightarrow> Some (cur, h)
      | Some parent \<Rightarrow>
          walk_up fuel amount parent
            (h(parent := (h parent)\<lparr>data_size := data_size (h parent) + amount h\<rparr>)))"

text \<open>
  The last statement of \<open>move\<close> and \<open>change_size\<close>: lay the root out again in its own
  rectangle. Subscripting \<open>None\<close> raises \<open>TypeError\<close>.
\<close>

definition relayout :: "nat \<Rightarrow> addr \<Rightarrow> heap \<Rightarrow> outcome" where
  "relayout fuel cur h =
     (case rect (h cur) of
        None \<Rightarrow> Raise TypeError h
      | Some (x, y, w, ht) \<Rightarrow> update_rectangles fuel cur (x, y, w, ht) h)"

definition TMTree_move :: "nat \<Rightarrow> addr \<Rightarrow> addr \<Rightarrow> heap \<Rightarrow> outcome" where
  "TMTree_move fuel self destination h =
     (if self = destination then Done h
      else
        let h1 = h(destination :=
                     (h destination)\<lparr>subtrees := subtrees (h destination) @ [self]\<rparr>)
        in case parent_tree (h1 self) of
             None \<Rightarrow> Raise AttributeError h1
           | Some parent \<Rightarrow>
               let h2 = (if length (subtrees (h1 parent)) < 2
                         then h1(parent := (h1 parent)\<lparr>expanded := False\<rparr>) else h1)
               in if self \<notin> set (subtrees (h2 parent)) then Raise ValueError h2
                  else
                    let h3 = h2(parent :=
                                  (h2 parent)\<lparr>subtrees := remove1 self (subtrees (h2 parent))\<rparr>)
                    in case walk_up fuel (\<lambda>s. - data_size (s self)) self h3 of
                         None \<Rightarrow> OutOfFuel
                       | Some (curr1, h4) \<Rightarrow>
                           let h5 = h4(self := (h4 self)\<lparr>parent_tree := Some destination\<rparr>);
                               h6 = h5(destination := (h5 destination)\<lparr>expanded := True\<rparr>)
                           in case walk_up fuel (\<lambda>s. data_size (s self)) self h6 of
                                None \<Rightarrow> OutOfFuel
                              | Some (curr2, h7) \<Rightarrow> relayout fuel curr2 h7)"

text \<open>
  \<open>move\<close> as the class of \<open>self\<close> dispatches it: \<open>FileTree\<close> and \<open>DirectoryTree\<close> refuse
  a \<open>FileTree\<close> destination, \<open>ChessTree\<close> refuses every move.
\<close>

definition move :: "nat \<Rightarrow> addr \<Rightarrow> addr \<Rightarrow> heap \<Rightarrow> outcome" where
  "move fuel self destination h =
     (case kind (h self) of
        Generic \<Rightarrow> TMTree_move fuel self destination h
      | File \<Rightarrow>
          if kind (h destination) = File then Raise OperationNotSupportedError h
          else TMTree_move fuel self destination h
      | Directory \<Rightarrow>
          if kind (h destination) = File then Raise OperationNotSupportedError h
          else TMTree_move fuel self destination h
      | ChessMove \<Rightarrow> Raise OperationNotSupportedError h)"

text \<open>
  \<open>change_size\<close>. The factor is a float, taken here as the rational number it stands
  for. \<open>float_mul\<close> is the float product \<open>factor * self.data_size\<close> (the integer converted
  to a float, the product rounded), a parameter of the model.
\<close>

definition TMTree_change_size ::
  "(rat \<Rightarrow> int \<Rightarrow> rat) \<Rightarrow> nat \<Rightarrow> addr \<Rightarrow> rat \<Rightarrow> heap \<Rightarrow> outcome" where
  "TMTree_change_size float_mul fuel self factor h =
     (let change = (if factor < 0 then \<lfloor>float_mul factor (data_size (h self))\<rfloor>
                    else \<lceil>float_mul factor (data_size (h self))\<rceil>);
          old_data_size = data_size (h self);
          new_data_size = data_size (h self) + change;
          h1 = (if subtrees (h self) = [] then
                  (if new_data_size < 1 then h(self := (h self)\<lparr>data_size := 1\<rparr>)
                   else h(self := (h self)\<lparr>data_size := new_data_size\<rparr>))
                else
                  (let subtree_size =
                         sum_list (map (\<lambda>subtree. data_size (h subtree)) (subtrees (h self)))
                   in if new_data_size < subtree_size
                      then h(self := (h self)\<lparr>data_size := subtree_size\<rparr>)
                      else h(self := (h self)\<lparr>data_size := new_data_size\<rparr>)))
      in case walk_up fuel (\<lambda>s. data_size (s self) - old_data_size) self h1 of
           None \<Rightarrow> OutOfFuel
         | Some (cur, h2) \<Rightarrow> relayout fuel cur h2)"

definition change_size ::
  "(rat \<Rightarrow> int \<Rightarrow> rat) \<Rightarrow> nat \<Rightarrow> addr \<Rightarrow> rat \<Rightarrow> heap \<Rightarrow> outcome" where
  "change_size float_mul fuel self factor h =
     (case kind (h self) of
        Generic \<Rightarrow> TMTree_change_size float_mul fuel self factor h
      | File \<Rightarrow> TMTree_change_size float_mul fuel self factor h
      | Directory \<Rightarrow> Raise OperationNotSupportedError h
      | ChessMove \<Rightarrow> Raise OperationNotSupportedError h)"


section \<open>Example stores\<close>

definition blank_node :: node where
  "blank_node = \<lparr>name = [], rect = None, parent_tree = None, colour = (0, 0, 0),
                   subtrees = [], data_size = 0, expanded = False, kind = Generic\<rparr>"

definition no_objects :: heap where
  "no_objects = (\<lambda>_. blank_node)"

text \<open>
  The example of the docstrings: \<open>s1 = TMTree('C1', [], 5)\<close> at address 1,
  \<open>s2 = TMTree('C2', [], 15)\<close> at address 2, \<open>t3 = TMTree('C', [s1, s2], 1)\<close> at address
  0, followed by \<open>t3.update_rectangles((0, 0, 100, 200))\<close>.
\<close>

definition docstring_tree :: heap where
  "docstring_tree =
     (let h = TMTree_init 0 Generic (10, 20, 30) ''C'' [1, 2] 1
                (TMTree_init 2 Generic (40, 50, 60) ''C2'' [] 15
                  (TMTree_init 1 Generic (70, 80, 90) ''C1'' [] 5 no_objects))
      in heap_of (update_rectangles 2 0 (0, 0, 100, 200) h) h)"

text \<open>
  The same shape with a file in it: \<open>f = FileTree('f', 5)\<close> at address 1,
  \<open>g = TMTree('g', [], 15)\<close> at address 2 and \<open>TMTree('C', [f, g], 1)\<close> at address 0,
  laid out in the same rectangle.
\<close>

definition file_tree :: heap where
  "file_tree =
     (let h = TMTree_init 0 Generic (10, 20, 30) ''C'' [1, 2] 1
                (TMTree_init 2 Generic (40, 50, 60) ''g'' [] 15
                  (FileTree_init 1 (70, 80, 90) ''f'' 5 no_objects))
      in heap_of (update_rectangles 2 0 (0, 0, 100, 200) h) h)"

section \<open>Ancestors\<close>

inductive_set ancestors :: "heap \<Rightarrow> addr \<Rightarrow> addr set" for h :: heap and a :: addr where
  parent: "parent_tree (h a) = Some p \<Longrightarrow> p \<in> ancestors h a"
| above: "q \<in> ancestors h a \<Longrightarrow> parent_tree (h q) = Some p \<Longrightarrow> p \<in> ancestors h a"

definition children_total :: "heap \<Rightarrow> addr \<Rightarrow> int" where
  "children_total h a = sum_list (map (\<lambda>subtree. data_size (h subtree)) (subtrees (h a)))"

lemma ancestors_trans:
  "q \<in> ancestors h p \<Longrightarrow> p \<in> ancestors h a \<Longrightarrow> q \<in> ancestors h a"
  by (induction rule: ancestors.induct) (auto intro: ancestors.intros)

lemma ancestors_of_parent:
  "parent_tree (h a) = Some p \<Longrightarrow> ancestors h a = insert p (ancestors h p)"
proof (intro set_eqI iffI)
  fix x assume "x \<in> ancestors h a" and "parent_tree (h a) = Some p"
  then show "x \<in> insert p (ancestors h p)"
    by (induction rule: ancestors.induct) (auto intro: ancestors.intros)
next
  fix x assume "x \<in> insert p (ancestors h p)" and "parent_tree (h a) = Some p"
  then show "x \<in> ancestors h a"
    by (auto intro: ancestors.parent ancestors_trans)
qed

lemma ancestors_of_root: "parent_tree (h a) = None \<Longrightarrow> ancestors h a = {}"
proof -
  assume r: "parent_tree (h a) = None"
  have "x \<in> ancestors h a \<Longrightarrow> False" for x
    by (induction rule: ancestors.induct) (use r in auto)
  then show ?thesis by auto
qed

lemma ancestors_unfold:
  "ancestors h a = (case parent_tree (h a) of None \<Rightarrow> {} | Some p \<Rightarrow> insert p (ancestors h p))"
  by (simp add: ancestors_of_parent ancestors_of_root split: option.split)

lemma ancestors_cong:
  assumes "\<And>x. parent_tree (h' x) = parent_tree (h x)"
  shows "ancestors h' a = ancestors h a"
proof (intro set_eqI iffI)
  fix x assume "x \<in> ancestors h' a"
  then show "x \<in> ancestors h a"
    by (induction rule: ancestors.induct) (auto simp: assms intro: ancestors.intros)
next
  fix x assume "x \<in> ancestors h a"
  then show "x \<in> ancestors h' a"
    by (induction rule: ancestors.induct) (auto simp: assms[symmetric] intro: ancestors.intros)
qed

lemma ancestors_child:
  "a \<in> ancestors h x \<Longrightarrow> \<exists>c. parent_tree (h c) = Some a \<and> (c = x \<or> c \<in> ancestors h x)"
  by (erule ancestors.cases) auto


section \<open>Forests\<close>

definition closed :: "addr set \<Rightarrow> heap \<Rightarrow> bool" where
  "closed A h \<longleftrightarrow>
     (\<forall>a\<in>A. set (subtrees (h a)) \<subseteq> A \<and> (\<forall>p. parent_tree (h a) = Some p \<longrightarrow> p \<in> A))"

definition up_ranked :: "addr set \<Rightarrow> heap \<Rightarrow> (addr \<Rightarrow> nat) \<Rightarrow> bool" where
  "up_ranked A h dp \<longleftrightarrow> (\<forall>a\<in>A. \<forall>p. parent_tree (h a) = Some p \<longrightarrow> dp p < dp a)"

definition down_ranked :: "addr set \<Rightarrow> heap \<Rightarrow> (addr \<Rightarrow> nat) \<Rightarrow> bool" where
  "down_ranked A h ht \<longleftrightarrow> (\<forall>a\<in>A. \<forall>c\<in>set (subtrees (h a)). ht c < ht a)"

definition add_size :: "addr set \<Rightarrow> int \<Rightarrow> heap \<Rightarrow> heap" where
  "add_size S amount h =
     (\<lambda>x. if x \<in> S then (h x)\<lparr>data_size := data_size (h x) + amount\<rparr> else h x)"

definition same_but_rect :: "heap \<Rightarrow> heap \<Rightarrow> bool" where
  "same_but_rect h h' \<longleftrightarrow> (\<forall>x. \<exists>r. h' x = (h x)\<lparr>rect := r\<rparr>)"

lemma ancestors_closed:
  assumes "closed A h" "a \<in> A" "p \<in> ancestors h a"
  shows "p \<in> A"
  using assms(3) by (induction rule: ancestors.induct) (use assms(1,2) in \<open>auto simp: closed_def\<close>)

lemma ancestors_rank:
  assumes "closed A h" "up_ranked A h dp" "a \<in> A" "p \<in> ancestors h a"
  shows "dp p < dp a"
  using assms(4)
proof (induction rule: ancestors.induct)
  case (parent p)
  then show ?case using assms(2,3) by (auto simp: up_ranked_def)
next
  case (above q p)
  have "q \<in> A" using ancestors_closed[OF assms(1,3) above(1)] .
  with above assms(2) have "dp p < dp q" by (auto simp: up_ranked_def)
  with above show ?case by simp
qed

lemma not_own_ancestor:
  "closed A h \<Longrightarrow> up_ranked A h dp \<Longrightarrow> a \<in> A \<Longrightarrow> a \<notin> ancestors h a"
  using ancestors_rank by blast

lemma same_but_rect_refl [simp]: "same_but_rect h h"
  unfolding same_but_rect_def
proof
  fix x show "\<exists>r. h x = (h x)\<lparr>rect := r\<rparr>" by (rule exI[of _ "rect (h x)"]) simp
qed

lemma same_but_rect_trans:
  "same_but_rect h h' \<Longrightarrow> same_but_rect h' h'' \<Longrightarrow> same_but_rect h h''"
  unfolding same_but_rect_def
proof
  fix x
  assume a: "\<forall>x. \<exists>r. h' x = (h x)\<lparr>rect := r\<rparr>" and b: "\<forall>x. \<exists>r. h'' x = (h' x)\<lparr>rect := r\<rparr>"
  from a obtain r1 where "h' x = (h x)\<lparr>rect := r1\<rparr>" by blast
  moreover from b obtain r2 where "h'' x = (h' x)\<lparr>rect := r2\<rparr>" by blast
  ultimately show "\<exists>r. h'' x = (h x)\<lparr>rect := r\<rparr>" by (intro exI[of _ r2]) simp
qed

lemma same_but_rect_upd: "same_but_rect h (h(a := (h a)\<lparr>rect := r\<rparr>))"
  unfolding same_but_rect_def
proof
  fix x show "\<exists>r'. (h(a := (h a)\<lparr>rect := r\<rparr>)) x = (h x)\<lparr>rect := r'\<rparr>"
    by (cases "x = a") (auto intro: exI[of _ "rect (h x)"])
qed

lemma same_but_rect_fields:
  assumes "same_but_rect h h'"
  shows "subtrees (h' x) = subtrees (h x)" "parent_tree (h' x) = parent_tree (h x)"
    "data_size (h' x) = data_size (h x)" "expanded (h' x) = expanded (h x)"
    "kind (h' x) = kind (h x)" "name (h' x) = name (h x)" "colour (h' x) = colour (h x)"
proof -
  from assms obtain r where "h' x = (h x)\<lparr>rect := r\<rparr>" unfolding same_but_rect_def by blast
  then show "subtrees (h' x) = subtrees (h x)" "parent_tree (h' x) = parent_tree (h x)"
    "data_size (h' x) = data_size (h x)" "expanded (h' x) = expanded (h x)"
    "kind (h' x) = kind (h x)" "name (h' x) = name (h x)" "colour (h' x) = colour (h x)"
    by simp_all
qed

lemma same_but_rect_total:
  "same_but_rect h h' \<Longrightarrow> children_total h' a = children_total h a"
  by (simp add: children_total_def same_but_rect_fields)


subsection \<open>Layout changes rectangles only\<close>

fun final_heap :: "outcome \<Rightarrow> heap option" where
  "final_heap (Done h') = Some h'"
| "final_heap (Raise e h') = Some h'"
| "final_heap OutOfFuel = None"

lemma heap_of_final: "heap_of out h = (case final_heap out of Some h' \<Rightarrow> h' | None \<Rightarrow> h)"
  by (cases out) auto

lemma slice_loop_frame:
  assumes "\<And>c r s s'. final_heap (go c r s) = Some s' \<Longrightarrow> same_but_rect s s'"
    and "final_heap (slice_loop go bw cs tot ul r h) = Some h'"
  shows "same_but_rect h h'"
  using assms
proof (induction go bw cs tot ul r h rule: slice_loop.induct)
  case (1 go by_width tot ux uy x y w ht h)
  then show ?case by simp
next
  case (2 go by_width lst tot ux uy x y w ht h)
  then show ?case by (auto split: if_splits)
next
  case (3 go by_width subtree v va tot ux uy x y w ht h)
  note go = "3.prems"(1)
  show ?case
  proof (cases "tot = 0")
    case True
    with "3.prems"(2) show ?thesis by simp
  next
    case nz: False
    show ?thesis
    proof (cases by_width)
      case True
      let ?width = "(data_size (h subtree) * w) div tot"
      show ?thesis
      proof (cases "go subtree (ux, uy, ?width, ht) h")
        case (Done s)
        then have "final_heap (go subtree (ux, uy, ?width, ht) h) = Some s" by simp
        then have s1: "same_but_rect h s" by (rule go)
        from "3.prems"(2) Done nz True
        have fin: "final_heap (slice_loop go by_width (v # va) tot (ux + ?width, uy) (x, y, w, ht) s)
                = Some h'" by (simp add: Let_def)
        have "same_but_rect s h'"
          by (rule "3.IH"(1)[OF nz True refl Done _ fin]) (rule go)
        with s1 show ?thesis by (blast intro: same_but_rect_trans)
      next
        case (Raise e s)
        with "3.prems"(2) nz True have "s = h'" by (simp add: Let_def)
        moreover from Raise have "final_heap (go subtree (ux, uy, ?width, ht) h) = Some s" by simp
        then have "same_but_rect h s" by (rule go)
        ultimately show ?thesis by simp
      next
        case OutOfFuel
        with "3.prems"(2) nz True show ?thesis by (simp add: Let_def)
      qed
    next
      case False
      let ?height = "(data_size (h subtree) * ht) div tot"
      show ?thesis
      proof (cases "go subtree (ux, uy, w, ?height) h")
        case (Done s)
        then have "final_heap (go subtree (ux, uy, w, ?height) h) = Some s" by simp
        then have s1: "same_but_rect h s" by (rule go)
        from "3.prems"(2) Done nz False
        have fin: "final_heap (slice_loop go by_width (v # va) tot (ux, uy + ?height) (x, y, w, ht) s)
                = Some h'" by (simp add: Let_def)
        have "same_but_rect s h'"
          by (rule "3.IH"(2)[OF nz False refl Done _ fin]) (rule go)
        with s1 show ?thesis by (blast intro: same_but_rect_trans)
      next
        case (Raise e s)
        with "3.prems"(2) nz False have "s = h'" by (simp add: Let_def)
        moreover from Raise have "final_heap (go subtree (ux, uy, w, ?height) h) = Some s" by simp
        then have "same_but_rect h s" by (rule go)
        ultimately show ?thesis by simp
      next
        case OutOfFuel
        with "3.prems"(2) nz False show ?thesis by (simp add: Let_def)
      qed
    qed
  qed
qed

lemma update_rectangles_frame:
  "final_heap (update_rectangles fuel a r h) = Some h' \<Longrightarrow> same_but_rect h h'"
proof (induction fuel arbitrary: a r h h')
  case 0
  then show ?case by simp
next
  case (Suc fuel)
  let ?h1 = "h(a := (h a)\<lparr>rect := Some r\<rparr>)"
  have s1: "same_but_rect h ?h1" by (rule same_but_rect_upd)
  show ?case
  proof (cases "subtrees (h a) = []")
    case True
    with Suc.prems s1 show ?thesis by (auto simp: Let_def)
  next
    case ne: False
    show ?thesis
    proof (cases "length (subtrees (h a)) = 1")
      case True
      with Suc.prems ne
      have "final_heap (update_rectangles fuel (hd (subtrees (h a))) r ?h1) = Some h'"
        by (simp add: Let_def)
      from Suc.IH[OF this] s1 show ?thesis by (blast intro: same_but_rect_trans)
    next
      case False
      with Suc.prems ne
      have fin: "final_heap (slice_loop (update_rectangles fuel)
              (fst (snd (snd r)) > snd (snd (snd r))) (subtrees (h a))
              (sum_list (map (\<lambda>subtree. data_size (h subtree)) (subtrees (h a))))
              (fst r, fst (snd r)) r ?h1) = Some h'"
        by (simp add: Let_def)
      have "same_but_rect ?h1 h'"
        by (rule slice_loop_frame[OF _ fin]) (rule Suc.IH)
      with s1 show ?thesis by (blast intro: same_but_rect_trans)
    qed
  qed
qed


subsection \<open>Layout ends normally on a forest\<close>

lemma slice_loop_Done:
  assumes "\<And>c r s. c \<in> set cs \<Longrightarrow> same_but_rect h0 s \<Longrightarrow> \<exists>s'. go c r s = Done s'"
    and "\<And>c r s s'. final_heap (go c r s) = Some s' \<Longrightarrow> same_but_rect s s'"
    and "tot \<noteq> 0" and "same_but_rect h0 h"
  shows "\<exists>h'. slice_loop go bw cs tot ul r h = Done h'"
  using assms
proof (induction go bw cs tot ul r h rule: slice_loop.induct)
  case (1 go by_width tot ux uy x y w ht h)
  then show ?case by simp
next
  case (2 go by_width lst tot ux uy x y w ht h)
  have "\<exists>s'. go lst r h = Done s'" for r
    by (rule "2.prems"(1)) (use "2.prems"(4) in auto)
  then show ?case by simp
next
  case (3 go by_width subtree v va tot ux uy x y w ht h)
  note nz = "3.prems"(3)
  have go_ok: "\<exists>s'. go c r s = Done s'" if "c \<in> set (v # va)" "same_but_rect h0 s" for c r s
    by (rule "3.prems"(1)) (use that in auto)
  have go_fr: "same_but_rect s s'" if "final_heap (go c r s) = Some s'" for c r s s'
    using that by (rule "3.prems"(2))
  have first: "\<exists>s'. go subtree r h = Done s'" for r
    by (rule "3.prems"(1)) (use "3.prems"(4) in auto)
  show ?case
  proof (cases by_width)
    case True
    let ?width = "(data_size (h subtree) * w) div tot"
    from first obtain s where s: "go subtree (ux, uy, ?width, ht) h = Done s" by blast
    then have "final_heap (go subtree (ux, uy, ?width, ht) h) = Some s" by simp
    then have "same_but_rect h s" by (rule go_fr)
    with "3.prems"(4) have s0: "same_but_rect h0 s" by (blast intro: same_but_rect_trans)
    have "\<exists>h'. slice_loop go by_width (v # va) tot (ux + ?width, uy) (x, y, w, ht) s = Done h'"
      by (rule "3.IH"(1)[OF nz True refl s _ _ nz s0]) (auto intro: go_ok go_fr)
    with s nz True show ?thesis by (simp add: Let_def)
  next
    case False
    let ?height = "(data_size (h subtree) * ht) div tot"
    from first obtain s where s: "go subtree (ux, uy, w, ?height) h = Done s" by blast
    then have "final_heap (go subtree (ux, uy, w, ?height) h) = Some s" by simp
    then have "same_but_rect h s" by (rule go_fr)
    with "3.prems"(4) have s0: "same_but_rect h0 s" by (blast intro: same_but_rect_trans)
    have "\<exists>h'. slice_loop go by_width (v # va) tot (ux, uy + ?height) (x, y, w, ht) s = Done h'"
      by (rule "3.IH"(2)[OF nz False refl s _ _ nz s0]) (auto intro: go_ok go_fr)
    with s nz False show ?thesis by (simp add: Let_def)
  qed
qed

lemma update_rectangles_Done:
  assumes "closed A h0" and "down_ranked A h0 ht"
    and "\<forall>a\<in>A. 2 \<le> length (subtrees (h0 a)) \<longrightarrow> children_total h0 a \<noteq> 0"
  shows "a \<in> A \<Longrightarrow> ht a < fuel \<Longrightarrow> same_but_rect h0 h \<Longrightarrow>
           \<exists>h'. update_rectangles fuel a r h = Done h'"
proof (induction fuel arbitrary: a r h)
  case 0
  then show ?case by simp
next
  case (Suc fuel)
  let ?h1 = "h(a := (h a)\<lparr>rect := Some r\<rparr>)"
  have s1: "same_but_rect h0 ?h1"
    using Suc.prems(3) same_but_rect_upd by (blast intro: same_but_rect_trans)
  have subs: "subtrees (h a) = subtrees (h0 a)"
    using Suc.prems(3) by (simp add: same_but_rect_fields)
  have kids: "c \<in> A \<and> ht c < fuel" if "c \<in> set (subtrees (h0 a))" for c
    using that assms(1,2) Suc.prems(1,2) by (fastforce simp: closed_def down_ranked_def)
  show ?case
  proof (cases "subtrees (h a) = []")
    case True
    then show ?thesis by (simp add: Let_def)
  next
    case ne: False
    show ?thesis
    proof (cases "length (subtrees (h a)) = 1")
      case True
      with ne have "hd (subtrees (h a)) \<in> set (subtrees (h0 a))" using subs by auto
      from kids[OF this] have "\<exists>h'. update_rectangles fuel (hd (subtrees (h a))) r ?h1 = Done h'"
        using Suc.IH s1 by blast
      with ne True show ?thesis by (simp add: Let_def)
    next
      case False
      with ne have "2 \<le> length (subtrees (h0 a))" using subs
        by (cases "subtrees (h0 a)") (auto simp: Suc_le_eq)
      with assms(3) Suc.prems(1) have "children_total h0 a \<noteq> 0" by blast
      then have nz: "sum_list (map (\<lambda>subtree. data_size (h subtree)) (subtrees (h a))) \<noteq> 0"
        using same_but_rect_total[OF Suc.prems(3), of a] by (simp add: children_total_def)
      have "\<exists>h'. slice_loop (update_rectangles fuel) bw (subtrees (h a))
               (sum_list (map (\<lambda>subtree. data_size (h subtree)) (subtrees (h a)))) ul r ?h1
             = Done h'" for bw ul
      proof (rule slice_loop_Done[where ?h0.0 = h0, OF _ _ nz s1])
        fix c r s assume "c \<in> set (subtrees (h a))" "same_but_rect h0 s"
        then show "\<exists>s'. update_rectangles fuel c r s = Done s'"
          using kids subs Suc.IH by auto
      next
        fix c r s s' assume "final_heap (update_rectangles fuel c r s) = Some s'"
        then show "same_but_rect s s'" by (rule update_rectangles_frame)
      qed
      with ne False show ?thesis by (simp add: Let_def)
    qed
  qed
qed

subsection \<open>Walking up to the root\<close>

lemma closed_upd:
  assumes "closed A h" "\<And>x. subtrees (h' x) = subtrees (h x)"
    "\<And>x. parent_tree (h' x) = parent_tree (h x)"
  shows "closed A h'"
  using assms by (simp add: closed_def)

lemma up_ranked_upd:
  assumes "up_ranked A h dp" "\<And>x. parent_tree (h' x) = parent_tree (h x)"
  shows "up_ranked A h' dp"
  using assms by (simp add: up_ranked_def)

section \<open>The representation invariants\<close>

definition colour_ok :: "int \<times> int \<times> int \<Rightarrow> bool" where
  "colour_ok c \<longleftrightarrow>
     (case c of (r, g, b) \<Rightarrow> 0 \<le> r \<and> r \<le> 255 \<and> 0 \<le> g \<and> g \<le> 255 \<and> 0 \<le> b \<and> b \<le> 255)"

text \<open>
  The invariants of the data model that speak of one node \<open>a\<close>, its parent and its
  subtrees.
\<close>

definition core_inv :: "heap \<Rightarrow> addr \<Rightarrow> bool" where
  "core_inv h a \<longleftrightarrow>
     0 < data_size (h a) \<and> name (h a) \<noteq> [] \<and>
     (subtrees (h a) \<noteq> [] \<longrightarrow> children_total h a \<le> data_size (h a)) \<and>
     colour_ok (colour (h a)) \<and>
     (\<forall>p. parent_tree (h a) = Some p \<longrightarrow> a \<in> set (subtrees (h p))) \<and>
     (\<forall>c\<in>set (subtrees (h a)). parent_tree (h c) = Some a) \<and>
     (\<forall>p. parent_tree (h a) = Some p \<longrightarrow> expanded (h a) \<longrightarrow> expanded (h p)) \<and>
     (subtrees (h a) = [] \<longrightarrow> \<not> expanded (h a)) \<and>
     (kind (h a) = Directory \<longrightarrow> data_size (h a) = 1 + children_total h a) \<and>
     (kind (h a) = File \<longrightarrow> subtrees (h a) = [])"

text \<open>
  All invariants of the data model for the node \<open>a\<close> of a store whose objects are the
  addresses in \<open>A\<close>: the ones above, and that an unexpanded node has only unexpanded
  descendants (a descendant of \<open>a\<close> is an object that has \<open>a\<close> among its ancestors).
\<close>

definition rep_inv :: "addr set \<Rightarrow> heap \<Rightarrow> addr \<Rightarrow> bool" where
  "rep_inv A h a \<longleftrightarrow>
     core_inv h a \<and>
     (\<not> expanded (h a) \<longrightarrow> (\<forall>x\<in>A. a \<in> ancestors h x \<longrightarrow> \<not> expanded (h x)))"

text \<open>
  The objects form a forest: references stay among the objects, no object is twice in a
  list of subtrees, and neither the parent references nor the subtree lists run in a
  circle (a rank decreases along each).
\<close>

definition forest :: "addr set \<Rightarrow> heap \<Rightarrow> bool" where
  "forest A h \<longleftrightarrow>
     closed A h \<and> (\<forall>a\<in>A. distinct (subtrees (h a))) \<and>
     (\<exists>dp. up_ranked A h dp) \<and> (\<exists>ht. down_ranked A h ht)"

definition well_formed :: "addr set \<Rightarrow> heap \<Rightarrow> bool" where
  "well_formed A h \<longleftrightarrow> forest A h \<and> (\<forall>a\<in>A. rep_inv A h a)"

definition same_but_expanded :: "heap \<Rightarrow> heap \<Rightarrow> bool" where
  "same_but_expanded h h' \<longleftrightarrow> (\<forall>x. \<exists>e. h' x = (h x)\<lparr>expanded := e\<rparr>)"

lemma collapsed_below:
  assumes "closed A h" and "\<forall>a\<in>A. \<forall>p. parent_tree (h a) = Some p \<longrightarrow> expanded (h a) \<longrightarrow> expanded (h p)"
    and "x \<in> A" and "a \<in> ancestors h x" and "\<not> expanded (h a)"
  shows "\<not> expanded (h x)"
  using assms(4,5)
proof (induction rule: ancestors.induct)
  case (parent p)
  then show ?case using assms(2,3) by blast
next
  case (above q p)
  have "q \<in> A" using ancestors_closed[OF assms(1,3) above(1)] .
  with above(2,4) assms(2) have "\<not> expanded (h q)" by blast
  then show ?case by (rule above.IH)
qed

lemma rep_inv_core: "rep_inv A h a \<Longrightarrow> core_inv h a"
  by (simp add: rep_inv_def)

lemma core_rep_inv:
  assumes "closed A h" and "\<forall>a\<in>A. core_inv h a" and "a \<in> A"
  shows "rep_inv A h a"
proof -
  have up: "\<forall>a\<in>A. \<forall>p. parent_tree (h a) = Some p \<longrightarrow> expanded (h a) \<longrightarrow> expanded (h p)"
    using assms(2) unfolding core_inv_def by blast
  have "\<not> expanded (h a) \<longrightarrow> (\<forall>x\<in>A. a \<in> ancestors h x \<longrightarrow> \<not> expanded (h x))"
    using collapsed_below[OF assms(1) up] by blast
  moreover have "core_inv h a" using assms(2,3) by blast
  ultimately show ?thesis by (simp add: rep_inv_def)
qed

lemma well_formed_core:
  "well_formed A h \<longleftrightarrow> forest A h \<and> (\<forall>a\<in>A. core_inv h a)"
proof
  assume "well_formed A h"
  then show "forest A h \<and> (\<forall>a\<in>A. core_inv h a)"
    by (auto simp: well_formed_def intro: rep_inv_core)
next
  assume a: "forest A h \<and> (\<forall>a\<in>A. core_inv h a)"
  then have "closed A h" by (simp add: forest_def)
  from core_rep_inv[OF this] a show "well_formed A h"
    by (auto simp: well_formed_def)
qed

lemma core_inv_cong:
  assumes "\<And>x. subtrees (h' x) = subtrees (h x)" "\<And>x. parent_tree (h' x) = parent_tree (h x)"
    "\<And>x. data_size (h' x) = data_size (h x)" "\<And>x. expanded (h' x) = expanded (h x)"
    "\<And>x. kind (h' x) = kind (h x)" "\<And>x. name (h' x) = name (h x)"
    "\<And>x. colour (h' x) = colour (h x)"
  shows "core_inv h' a = core_inv h a"
  by (simp add: core_inv_def children_total_def assms)

lemma forest_cong:
  assumes "\<And>x. subtrees (h' x) = subtrees (h x)" "\<And>x. parent_tree (h' x) = parent_tree (h x)"
  shows "forest A h' = forest A h"
  by (simp add: forest_def closed_def up_ranked_def down_ranked_def assms)

lemma well_formed_same_but_rect:
  assumes "same_but_rect h h'" "well_formed A h"
  shows "well_formed A h'"
proof -
  note f = same_but_rect_fields[OF assms(1)]
  have "forest A h' = forest A h" by (rule forest_cong) (simp_all add: f)
  moreover have "core_inv h' a = core_inv h a" for a by (rule core_inv_cong) (simp_all add: f)
  ultimately show ?thesis using assms(2) by (simp add: well_formed_core)
qed

lemma same_but_expanded_fields:
  assumes "same_but_expanded h h'"
  shows "subtrees (h' x) = subtrees (h x)" "parent_tree (h' x) = parent_tree (h x)"
    "data_size (h' x) = data_size (h x)" "rect (h' x) = rect (h x)"
    "kind (h' x) = kind (h x)" "name (h' x) = name (h x)" "colour (h' x) = colour (h x)"
proof -
  from assms obtain e where "h' x = (h x)\<lparr>expanded := e\<rparr>"
    unfolding same_but_expanded_def by blast
  then show "subtrees (h' x) = subtrees (h x)" "parent_tree (h' x) = parent_tree (h x)"
    "data_size (h' x) = data_size (h x)" "rect (h' x) = rect (h x)"
    "kind (h' x) = kind (h x)" "name (h' x) = name (h x)" "colour (h' x) = colour (h x)"
    by simp_all
qed

lemma same_but_expanded_refl [simp]: "same_but_expanded h h"
  unfolding same_but_expanded_def
proof
  fix x show "\<exists>e. h x = (h x)\<lparr>expanded := e\<rparr>" by (rule exI[of _ "expanded (h x)"]) simp
qed

lemma same_but_expanded_trans:
  "same_but_expanded h h' \<Longrightarrow> same_but_expanded h' h'' \<Longrightarrow> same_but_expanded h h''"
  unfolding same_but_expanded_def
proof
  fix x
  assume a: "\<forall>x. \<exists>e. h' x = (h x)\<lparr>expanded := e\<rparr>" and b: "\<forall>x. \<exists>e. h'' x = (h' x)\<lparr>expanded := e\<rparr>"
  from a obtain e1 where "h' x = (h x)\<lparr>expanded := e1\<rparr>" by blast
  moreover from b obtain e2 where "h'' x = (h' x)\<lparr>expanded := e2\<rparr>" by blast
  ultimately show "\<exists>e. h'' x = (h x)\<lparr>expanded := e\<rparr>" by (intro exI[of _ e2]) simp
qed

lemma same_but_expanded_upd: "same_but_expanded h (h(a := (h a)\<lparr>expanded := e\<rparr>))"
  unfolding same_but_expanded_def
proof
  fix x show "\<exists>e'. (h(a := (h a)\<lparr>expanded := e\<rparr>)) x = (h x)\<lparr>expanded := e'\<rparr>"
    by (cases "x = a") (auto intro: exI[of _ "expanded (h x)"])
qed

lemma same_but_expanded_ancestors:
  "same_but_expanded h h' \<Longrightarrow> ancestors h' a = ancestors h a"
  by (rule ancestors_cong) (simp add: same_but_expanded_fields)

text \<open>Changing flags keeps a store well formed when the new flags obey the two rules for flags.\<close>

lemma well_formed_flags:
  assumes "well_formed A h" and "same_but_expanded h h'"
    and "\<forall>a\<in>A. \<forall>p. parent_tree (h a) = Some p \<longrightarrow> expanded (h' a) \<longrightarrow> expanded (h' p)"
    and "\<forall>a\<in>A. subtrees (h a) = [] \<longrightarrow> \<not> expanded (h' a)"
  shows "well_formed A h'"
proof -
  note f = same_but_expanded_fields[OF assms(2)]
  have "forest A h' = forest A h" by (rule forest_cong) (simp_all add: f)
  moreover have "core_inv h' a" if "a \<in> A" for a
  proof -
    have "core_inv h a" using assms(1) that by (simp add: well_formed_core)
    then show ?thesis using assms(3,4) that
      by (simp add: core_inv_def children_total_def f)
  qed
  ultimately show ?thesis using assms(1) by (simp add: well_formed_core)
qed


section \<open>Collapsing\<close>

text \<open>
  What \<open>_unexpanded\<close> on the objects in \<open>C\<close> does to a store: only flags change, no flag
  is set, every object in \<open>C\<close> or below is unexpanded afterwards, and the objects elsewhere
  are as before.
\<close>

definition lowered :: "addr set \<Rightarrow> addr set \<Rightarrow> heap \<Rightarrow> heap \<Rightarrow> bool" where
  "lowered A C h h' \<longleftrightarrow>
     same_but_expanded h h' \<and>
     (\<forall>x. expanded (h' x) \<longrightarrow> expanded (h x)) \<and>
     (\<forall>x\<in>A. x \<in> C \<or> C \<inter> ancestors h x \<noteq> {} \<longrightarrow> \<not> expanded (h' x)) \<and>
     (\<forall>x. x \<notin> C \<and> C \<inter> ancestors h x = {} \<longrightarrow> h' x = h x)"

text \<open>The part of the invariants that \<open>_unexpanded\<close> relies on.\<close>

definition linked :: "addr set \<Rightarrow> heap \<Rightarrow> bool" where
  "linked A h \<longleftrightarrow>
     closed A h \<and>
     (\<forall>a\<in>A. \<forall>p. parent_tree (h a) = Some p \<longrightarrow> a \<in> set (subtrees (h p))) \<and>
     (\<forall>a\<in>A. \<forall>c\<in>set (subtrees (h a)). parent_tree (h c) = Some a) \<and>
     (\<forall>a\<in>A. subtrees (h a) = [] \<longrightarrow> \<not> expanded (h a))"

lemma loweredD:
  assumes "lowered A C h h'"
  shows "same_but_expanded h h'"
    and "\<And>x. expanded (h' x) \<Longrightarrow> expanded (h x)"
    and "\<And>x. x \<in> A \<Longrightarrow> x \<in> C \<or> C \<inter> ancestors h x \<noteq> {} \<Longrightarrow> \<not> expanded (h' x)"
    and "\<And>x. x \<notin> C \<Longrightarrow> C \<inter> ancestors h x = {} \<Longrightarrow> h' x = h x"
  using assms unfolding lowered_def by blast+

lemma loweredI:
  assumes "same_but_expanded h h'"
    and "\<And>x. expanded (h' x) \<Longrightarrow> expanded (h x)"
    and "\<And>x. x \<in> A \<Longrightarrow> x \<in> C \<or> C \<inter> ancestors h x \<noteq> {} \<Longrightarrow> \<not> expanded (h' x)"
    and "\<And>x. x \<notin> C \<Longrightarrow> C \<inter> ancestors h x = {} \<Longrightarrow> h' x = h x"
  shows "lowered A C h h'"
  using assms unfolding lowered_def by blast

lemma linkedD:
  assumes "linked A h"
  shows "closed A h"
    and "\<And>a p. a \<in> A \<Longrightarrow> parent_tree (h a) = Some p \<Longrightarrow> a \<in> set (subtrees (h p))"
    and "\<And>a c. a \<in> A \<Longrightarrow> c \<in> set (subtrees (h a)) \<Longrightarrow> parent_tree (h c) = Some a"
    and "\<And>a. a \<in> A \<Longrightarrow> subtrees (h a) = [] \<Longrightarrow> \<not> expanded (h a)"
  using assms unfolding linked_def by blast+

lemma closedD:
  assumes "closed A h" "a \<in> A"
  shows "set (subtrees (h a)) \<subseteq> A" and "\<And>p. parent_tree (h a) = Some p \<Longrightarrow> p \<in> A"
  using assms unfolding closed_def by blast+

lemma core_invD:
  assumes "core_inv h a"
  shows "0 < data_size (h a)" and "name (h a) \<noteq> []"
    and "subtrees (h a) \<noteq> [] \<Longrightarrow> children_total h a \<le> data_size (h a)"
    and "colour_ok (colour (h a))"
    and "\<And>p. parent_tree (h a) = Some p \<Longrightarrow> a \<in> set (subtrees (h p))"
    and "\<And>c. c \<in> set (subtrees (h a)) \<Longrightarrow> parent_tree (h c) = Some a"
    and "\<And>p. parent_tree (h a) = Some p \<Longrightarrow> expanded (h a) \<Longrightarrow> expanded (h p)"
    and "subtrees (h a) = [] \<Longrightarrow> \<not> expanded (h a)"
    and "kind (h a) = Directory \<Longrightarrow> data_size (h a) = 1 + children_total h a"
    and "kind (h a) = File \<Longrightarrow> subtrees (h a) = []"
  using assms unfolding core_inv_def by blast+

lemma well_formedD:
  assumes "well_formed A h"
  shows "closed A h" and "\<And>a. a \<in> A \<Longrightarrow> core_inv h a"
    and "\<And>a. a \<in> A \<Longrightarrow> distinct (subtrees (h a))"
    and "\<exists>dp. up_ranked A h dp" and "\<exists>ht. down_ranked A h ht"
  using assms unfolding well_formed_core forest_def by blast+

lemma well_formed_linked:
  assumes "well_formed A h"
  shows "linked A h"
  unfolding linked_def
  using well_formedD(1)[OF assms] core_invD(5,6,8)[OF well_formedD(2)[OF assms]]
  by blast

lemma down_rankedD: "down_ranked A h ht \<Longrightarrow> a \<in> A \<Longrightarrow> c \<in> set (subtrees (h a)) \<Longrightarrow> ht c < ht a"
  unfolding down_ranked_def by blast

lemma up_rankedD: "up_ranked A h dp \<Longrightarrow> a \<in> A \<Longrightarrow> parent_tree (h a) = Some p \<Longrightarrow> dp p < dp a"
  unfolding up_ranked_def by blast

lemma lowered_empty: "lowered A {} h h"
  by (rule loweredI) simp_all

lemma lowered_ancestors: "lowered A C h h' \<Longrightarrow> ancestors h' x = ancestors h x"
  by (rule same_but_expanded_ancestors) (rule loweredD(1))

lemma lowered_trans:
  assumes "lowered A C1 h h1" "lowered A C2 h1 h2"
  shows "lowered A (C1 \<union> C2) h h2"
proof (rule loweredI)
  show "same_but_expanded h h2"
    using loweredD(1)[OF assms(1)] loweredD(1)[OF assms(2)] by (rule same_but_expanded_trans)
next
  fix x assume "expanded (h2 x)"
  then have "expanded (h1 x)" by (rule loweredD(2)[OF assms(2)])
  then show "expanded (h x)" by (rule loweredD(2)[OF assms(1)])
next
  fix x assume x: "x \<in> A" "x \<in> C1 \<union> C2 \<or> (C1 \<union> C2) \<inter> ancestors h x \<noteq> {}"
  then consider "x \<in> C1 \<or> C1 \<inter> ancestors h x \<noteq> {}" | "x \<in> C2 \<or> C2 \<inter> ancestors h1 x \<noteq> {}"
    using lowered_ancestors[OF assms(1), of x] by blast
  then show "\<not> expanded (h2 x)"
  proof cases
    case 1
    have "\<not> expanded (h1 x)" using x(1) 1 by (rule loweredD(3)[OF assms(1)])
    then show ?thesis using loweredD(2)[OF assms(2)] by blast
  next
    case 2
    show ?thesis using x(1) 2 by (rule loweredD(3)[OF assms(2)])
  qed
next
  fix x assume x: "x \<notin> C1 \<union> C2" "(C1 \<union> C2) \<inter> ancestors h x = {}"
  have "h2 x = h1 x"
    by (rule loweredD(4)[OF assms(2)]) (use x lowered_ancestors[OF assms(1), of x] in auto)
  moreover have "h1 x = h x"
    by (rule loweredD(4)[OF assms(1)]) (use x in auto)
  ultimately show "h2 x = h x" by simp
qed

lemma linked_fields:
  assumes "linked A h" and "\<And>x. subtrees (h' x) = subtrees (h x)"
    and "\<And>x. parent_tree (h' x) = parent_tree (h x)"
    and "\<And>a. a \<in> A \<Longrightarrow> subtrees (h a) = [] \<Longrightarrow> \<not> expanded (h' a)"
  shows "linked A h'"
proof -
  have "closed A h'" by (rule closed_upd[OF linkedD(1)[OF assms(1)]]) (rule assms(2,3))+
  moreover have "\<forall>a\<in>A. \<forall>p. parent_tree (h' a) = Some p \<longrightarrow> a \<in> set (subtrees (h' p))"
    unfolding assms(2,3) using linkedD(2)[OF assms(1)] by blast
  moreover have "\<forall>a\<in>A. \<forall>c\<in>set (subtrees (h' a)). parent_tree (h' c) = Some a"
    unfolding assms(2,3) using linkedD(3)[OF assms(1)] by blast
  moreover have "\<forall>a\<in>A. subtrees (h' a) = [] \<longrightarrow> \<not> expanded (h' a)"
    unfolding assms(2) using assms(4) by blast
  ultimately show ?thesis unfolding linked_def by blast
qed

lemma linked_lowered:
  assumes "linked A h" "lowered A C h h'"
  shows "linked A h'"
proof (rule linked_fields[OF assms(1)])
  note f = same_but_expanded_fields[OF loweredD(1)[OF assms(2)]]
  show "subtrees (h' x) = subtrees (h x)" for x by (rule f)
  show "parent_tree (h' x) = parent_tree (h x)" for x by (rule f)
  show "\<not> expanded (h' a)" if "a \<in> A" "subtrees (h a) = []" for a
    using linkedD(4)[OF assms(1) that] loweredD(2)[OF assms(2)] by blast
qed

lemma down_ranked_fields:
  assumes "down_ranked A h ht" and "\<And>x. subtrees (h' x) = subtrees (h x)"
  shows "down_ranked A h' ht"
  using assms unfolding down_ranked_def by simp

lemma down_ranked_lowered:
  assumes "down_ranked A h ht" "lowered A C h h'"
  shows "down_ranked A h' ht"
  by (rule down_ranked_fields[OF assms(1)])
     (rule same_but_expanded_fields[OF loweredD(1)[OF assms(2)]])

text \<open>The loop over the subtrees, given what one call does.\<close>

lemma for_each_lowered:
  assumes "\<And>c s. c \<in> set cs \<Longrightarrow> linked A s \<Longrightarrow> down_ranked A s ht \<Longrightarrow>
             \<exists>s'. f c s = Some s' \<and> lowered A {c} s s'"
    and "linked A h" and "down_ranked A h ht"
  shows "\<exists>h'. for_each f cs h = Some h' \<and> lowered A (set cs) h h'"
  using assms
proof (induction cs arbitrary: h)
  case Nil
  then show ?case by (simp add: lowered_empty)
next
  case (Cons c cs)
  have "\<exists>s'. f c h = Some s' \<and> lowered A {c} h s'"
    by (rule Cons.prems(1)) (simp_all add: Cons.prems(2,3))
  then obtain s where s: "f c h = Some s" "lowered A {c} h s" by blast
  have l: "linked A s" using linked_lowered[OF Cons.prems(2) s(2)] .
  have d: "down_ranked A s ht" using down_ranked_lowered[OF Cons.prems(3) s(2)] .
  have "\<exists>h'. for_each f cs s = Some h' \<and> lowered A (set cs) s h'"
  proof (rule Cons.IH[OF _ l d])
    fix k t assume "k \<in> set cs" "linked A t" "down_ranked A t ht"
    then show "\<exists>s'. f k t = Some s' \<and> lowered A {k} t s'"
      using Cons.prems(1)[of k t] by simp
  qed
  then obtain h' where h': "for_each f cs s = Some h'" "lowered A (set cs) s h'" by blast
  have "lowered A ({c} \<union> set cs) h h'" using s(2) h'(2) by (rule lowered_trans)
  then have "lowered A (set (c # cs)) h h'" by simp
  with s(1) h'(1) show ?case by simp
qed

text \<open>
  Unexpanding the object \<open>p\<close> and then every subtree of it lowers \<open>p\<close>: the common part
  of \<open>_unexpanded\<close> with subtrees and of \<open>collapse\<close>.
\<close>

lemma lowered_node:
  assumes "linked A h" and "p \<in> A"
    and "lowered A (set (subtrees (h p))) (h(p := (h p)\<lparr>expanded := False\<rparr>)) h'"
  shows "lowered A {p} h h'"
proof (rule loweredI)
  let ?h1 = "h(p := (h p)\<lparr>expanded := False\<rparr>)"
  let ?cs = "set (subtrees (h p))"
  have s1: "same_but_expanded h ?h1" by (rule same_but_expanded_upd)
  have anc: "ancestors ?h1 x = ancestors h x" for x
    using s1 by (rule same_but_expanded_ancestors)
  have kids: "parent_tree (h c) = Some p" if "c \<in> ?cs" for c
    using linkedD(3)[OF assms(1,2) that] .
  show "same_but_expanded h h'"
    using s1 loweredD(1)[OF assms(3)] by (rule same_but_expanded_trans)
  show "expanded (h x)" if "expanded (h' x)" for x
  proof -
    have "expanded (?h1 x)" using that by (rule loweredD(2)[OF assms(3)])
    then show ?thesis by (cases "x = p") simp_all
  qed
  show "\<not> expanded (h' x)" if x: "x \<in> A" "x \<in> {p} \<or> {p} \<inter> ancestors h x \<noteq> {}" for x
  proof (cases "x = p")
    case True
    have "\<not> expanded (?h1 p)" by simp
    then show ?thesis using loweredD(2)[OF assms(3), of p] True by blast
  next
    case False
    with x(2) have "p \<in> ancestors h x" by auto
    from ancestors_child[OF this]
    obtain c where c: "parent_tree (h c) = Some p" "c = x \<or> c \<in> ancestors h x" by blast
    have "c \<in> A" using c(2) x(1) ancestors_closed[OF linkedD(1)[OF assms(1)] x(1)] by blast
    then have "c \<in> ?cs" using c(1) by (rule linkedD(2)[OF assms(1)])
    with c(2) have "x \<in> ?cs \<or> ?cs \<inter> ancestors ?h1 x \<noteq> {}" unfolding anc by blast
    with x(1) show ?thesis by (rule loweredD(3)[OF assms(3)])
  qed
  show "h' x = h x" if x: "x \<notin> {p}" "{p} \<inter> ancestors h x = {}" for x
  proof -
    have np: "x \<noteq> p" "p \<notin> ancestors h x" using x by auto
    have a: "x \<notin> ?cs" using kids[of x] np(2) by (auto intro: ancestors.parent)
    have "c \<notin> ancestors h x" if "c \<in> ?cs" for c
      using kids[OF that] np(2) by (auto intro: ancestors.above)
    then have b: "?cs \<inter> ancestors ?h1 x = {}" unfolding anc by blast
    have "h' x = ?h1 x" using a b by (rule loweredD(4)[OF assms(3)])
    with np(1) show ?thesis by simp
  qed
qed

lemma linked_unexpand_one:
  assumes "linked A h"
  shows "linked A (h(p := (h p)\<lparr>expanded := False\<rparr>))"
proof (rule linked_fields[OF assms])
  show "\<not> expanded ((h(p := (h p)\<lparr>expanded := False\<rparr>)) a)" if "a \<in> A" "subtrees (h a) = []" for a
    using linkedD(4)[OF assms that] by simp
qed simp_all

lemma down_ranked_unexpand_one:
  assumes "down_ranked A h ht"
  shows "down_ranked A (h(p := (h p)\<lparr>expanded := e\<rparr>)) ht"
  by (rule down_ranked_fields[OF assms]) simp

lemma unexpanded_lowered:
  "linked A h \<Longrightarrow> down_ranked A h ht \<Longrightarrow> c \<in> A \<Longrightarrow> ht c < fuel \<Longrightarrow>
     \<exists>h'. unexpanded fuel c h = Some h' \<and> lowered A {c} h h'"
proof (induction fuel arbitrary: c h)
  case 0
  then show ?case by simp
next
  case (Suc fuel)
  let ?h1 = "h(c := (h c)\<lparr>expanded := False\<rparr>)"
  show ?case
  proof (cases "subtrees (h c) = []")
    case True
    have "\<not> expanded (h c)" using Suc.prems(3) True by (rule linkedD(4)[OF Suc.prems(1)])
    then have eq: "?h1 = h" by (simp add: fun_eq_iff)
    have "lowered A (set (subtrees (h c))) ?h1 ?h1" unfolding True by (simp add: lowered_empty)
    then have "lowered A {c} h ?h1" by (rule lowered_node[OF Suc.prems(1,3)])
    then have "lowered A {c} h h" unfolding eq .
    with True show ?thesis by simp
  next
    case False
    have l1: "linked A ?h1" using Suc.prems(1) by (rule linked_unexpand_one)
    have d1: "down_ranked A ?h1 ht" using Suc.prems(2) by (rule down_ranked_unexpand_one)
    have "\<exists>h'. for_each (unexpanded fuel) (subtrees (h c)) ?h1 = Some h'
              \<and> lowered A (set (subtrees (h c))) ?h1 h'"
    proof (rule for_each_lowered[OF _ l1 d1])
      fix k s assume k: "k \<in> set (subtrees (h c))" and s: "linked A s" "down_ranked A s ht"
      have kA: "k \<in> A" using k closedD(1)[OF linkedD(1)[OF Suc.prems(1)] Suc.prems(3)] by blast
      have "ht k < ht c" using Suc.prems(2,3) k by (rule down_rankedD)
      with Suc.prems(4) have "ht k < fuel" by simp
      with kA show "\<exists>s'. unexpanded fuel k s = Some s' \<and> lowered A {k} s s'"
        using Suc.IH[OF s] by blast
    qed
    then obtain h' where h': "for_each (unexpanded fuel) (subtrees (h c)) ?h1 = Some h'"
      "lowered A (set (subtrees (h c))) ?h1 h'" by blast
    have "lowered A {c} h h'" using h'(2) by (rule lowered_node[OF Suc.prems(1,3)])
    with h'(1) False show ?thesis by simp
  qed
qed

lemma collapse_lowered:
  assumes "linked A h" "down_ranked A h ht" "n \<in> A" "parent_tree (h n) = Some p" "ht p \<le> fuel"
  shows "\<exists>h'. collapse fuel n h = Some (p, h') \<and> lowered A {p} h h'"
proof -
  let ?h1 = "h(p := (h p)\<lparr>expanded := False\<rparr>)"
  have pA: "p \<in> A" using closedD(2)[OF linkedD(1)[OF assms(1)] assms(3,4)] .
  have l1: "linked A ?h1" using assms(1) by (rule linked_unexpand_one)
  have d1: "down_ranked A ?h1 ht" using assms(2) by (rule down_ranked_unexpand_one)
  have "\<exists>h'. for_each (unexpanded fuel) (subtrees (h p)) ?h1 = Some h'
            \<and> lowered A (set (subtrees (h p))) ?h1 h'"
  proof (rule for_each_lowered[OF _ l1 d1])
    fix k s assume k: "k \<in> set (subtrees (h p))" and s: "linked A s" "down_ranked A s ht"
    have kA: "k \<in> A" using k closedD(1)[OF linkedD(1)[OF assms(1)] pA] by blast
    have "ht k < ht p" using assms(2) pA k by (rule down_rankedD)
    with assms(5) have "ht k < fuel" by simp
    with kA show "\<exists>s'. unexpanded fuel k s = Some s' \<and> lowered A {k} s s'"
      using unexpanded_lowered[OF s] by blast
  qed
  then obtain h' where h': "for_each (unexpanded fuel) (subtrees (h p)) ?h1 = Some h'"
    "lowered A (set (subtrees (h p))) ?h1 h'" by blast
  have "lowered A {p} h h'" using h'(2) by (rule lowered_node[OF assms(1) pA])
  with h'(1) assms(4) show ?thesis by (simp add: collapse_def)
qed

lemma well_formed_lowered:
  assumes "well_formed A h" "lowered A C h h'"
  shows "well_formed A h'"
proof (rule well_formed_flags[OF assms(1)])
  show "same_but_expanded h h'" by (rule loweredD(1)[OF assms(2)])
next
  show "\<forall>a\<in>A. \<forall>p. parent_tree (h a) = Some p \<longrightarrow> expanded (h' a) \<longrightarrow> expanded (h' p)"
  proof (intro ballI allI impI)
    fix a p assume a: "a \<in> A" "parent_tree (h a) = Some p" "expanded (h' a)"
    have ea: "expanded (h a)" using a(3) by (rule loweredD(2)[OF assms(2)])
    have ep: "expanded (h p)"
      using core_invD(7)[OF well_formedD(2)[OF assms(1) a(1)] a(2) ea] .
    have out: "a \<notin> C \<and> C \<inter> ancestors h a = {}"
      using loweredD(3)[OF assms(2) a(1)] a(3) by blast
    have "ancestors h a = insert p (ancestors h p)" using a(2) by (rule ancestors_of_parent)
    with out have "p \<notin> C" "C \<inter> ancestors h p = {}" by auto
    then have "h' p = h p" by (rule loweredD(4)[OF assms(2)])
    with ep show "expanded (h' p)" by simp
  qed
next
  show "\<forall>a\<in>A. subtrees (h a) = [] \<longrightarrow> \<not> expanded (h' a)"
    using linkedD(4)[OF well_formed_linked[OF assms(1)]] loweredD(2)[OF assms(2)] by blast
qed

section \<open>Move-sequence ingestion drops sequences\<close>

text \<open>
  Claim C4. The claim says that every non-empty sequence of the collection contributes
  its whole path and that empty sequences are ignored wherever they stand. The function
  tests only whether the first sequence is empty: a collection that starts with an empty
  sequence gives the empty dictionary, and so does a group whose first remainder is
  empty, which loses every longer game of the group that comes after a shorter one.
  Here \<open>[[], ['a']]\<close> gives \<open>{}\<close> and \<open>[['a'], ['a', 'b']]\<close> gives \<open>{('a', 1): {}}\<close>,
  while \<open>[['a', 'b'], ['a']]\<close>, the same games in the other order, keeps the move \<open>b\<close>.
\<close>

theorem moves_to_nested_dict_drops_sequences:
  "moves_to_nested_dict [[], [''a'']] = Dict []
   \<and> moves_to_nested_dict [[''a''], [''a'', ''b'']] = Dict [((''a'', 1), Dict [])]
   \<and> moves_to_nested_dict [[''a'', ''b''], [''a'']]
       = Dict [((''a'', 1), Dict [((''b'', 1), Dict [])])]"
  by code_simp

section \<open>Failing calls and the store\<close>

text \<open>
  Claim C7, counterexample. The claim says that a move into a \<open>FileTree\<close> destination
  raises \<open>OperationNotSupportedError\<close> and changes nothing. For a plain \<open>TMTree\<close> that
  is moved, nothing is raised and the file gets a subtree: in \<open>file_tree\<close>, \<open>g.move(f)\<close>.
\<close>

theorem move_into_file_counterexample:
  "kind (file_tree 1) = File
   \<and> raised (move 3 2 1 file_tree) = None
   \<and> subtrees (heap_of (move 3 2 1 file_tree) file_tree 1) = [2]
   \<and> subtrees (file_tree 1) = []"
  by code_simp

text \<open>
  Claim C7, as amended. \<open>change_size\<close> on a \<open>DirectoryTree\<close> or a \<open>ChessTree\<close> raises
  \<open>OperationNotSupportedError\<close>; \<open>move\<close> on a \<open>ChessTree\<close> raises it whatever the
  destination; \<open>move\<close> of a \<open>FileTree\<close> or a \<open>DirectoryTree\<close> into a \<open>FileTree\<close> raises
  it; and each of these calls leaves the store as it was.
\<close>

theorem unsupported_operations_raise_unchanged:
  "(kind (h self) = Directory \<or> kind (h self) = ChessMove \<longrightarrow>
      change_size float_mul fuel self factor h = Raise OperationNotSupportedError h)
   \<and> (kind (h self) = ChessMove \<longrightarrow>
      move fuel self destination h = Raise OperationNotSupportedError h)
   \<and> ((kind (h self) = File \<or> kind (h self) = Directory) \<and> kind (h destination) = File \<longrightarrow>
      move fuel self destination h = Raise OperationNotSupportedError h)"
  by (auto simp: change_size_def move_def)

text \<open>
  The amended claim at work: in \<open>file_tree\<close> with the root turned into a directory,
  resizing the root and moving it into the file both raise and change nothing.
\<close>

theorem unsupported_operations_raise_unchanged_witness:
  "change_size (\<lambda>f n. f * of_int n) 3 0 2
       (file_tree(0 := (file_tree 0)\<lparr>kind := Directory\<rparr>))
     = Raise OperationNotSupportedError (file_tree(0 := (file_tree 0)\<lparr>kind := Directory\<rparr>))
   \<and> move 3 0 1 (file_tree(0 := (file_tree 0)\<lparr>kind := Directory\<rparr>))
     = Raise OperationNotSupportedError (file_tree(0 := (file_tree 0)\<lparr>kind := Directory\<rparr>))"
proof -
  let ?h = "file_tree(0 := (file_tree 0)\<lparr>kind := Directory\<rparr>)"
  have k0: "kind (?h 0) = Directory" by simp
  have k1: "kind (?h 1) = File" by code_simp
  from unsupported_operations_raise_unchanged
         [of ?h 0 "\<lambda>f n. f * of_int n" 3 2 1] k0 k1
  show ?thesis by simp
qed

section \<open>Moving a tree onto itself\<close>

text \<open>
  Claim C10, counterexample. The claim says that \<open>n.move(n)\<close> raises nothing for every
  node. For a \<open>FileTree\<close> the override tests the destination's class first and raises:
  in \<open>file_tree\<close>, \<open>f.move(f)\<close>.
\<close>

theorem move_self_counterexample:
  "raised (move 3 1 1 file_tree) = Some OperationNotSupportedError"
  by code_simp

text \<open>
  Claim C10, as amended. \<open>n.move(n)\<close> leaves every object as it was; it returns
  normally when \<open>n\<close> is a plain \<open>TMTree\<close> or a \<open>DirectoryTree\<close>, and raises
  \<open>OperationNotSupportedError\<close> when \<open>n\<close> is a \<open>FileTree\<close> or a \<open>ChessTree\<close>.
\<close>

theorem move_self_unchanged:
  "move fuel n n h =
     (if kind (h n) = Generic \<or> kind (h n) = Directory then Done h
      else Raise OperationNotSupportedError h)"
  by (cases "kind (h n)") (simp_all add: move_def TMTree_move_def)

theorem move_self_unchanged_witness:
  "move 3 2 2 file_tree = Done file_tree
   \<and> move 3 1 1 file_tree = Raise OperationNotSupportedError file_tree"
proof -
  have k2: "kind (file_tree 2) = Generic" by code_simp
  have k1: "kind (file_tree 1) = File" by code_simp
  from move_self_unchanged[of 3 2 file_tree] move_self_unchanged[of 3 1 file_tree] k1 k2
  show ?thesis by simp
qed

lemma docstring_tree_nodes:
  "docstring_tree 0 = \<lparr>name = ''C'', rect = Some (0, 0, 100, 200), parent_tree = None,
       colour = (10, 20, 30), subtrees = [1, 2], data_size = 21, expanded = True,
       kind = Generic\<rparr>"
  "docstring_tree (Suc 0) = \<lparr>name = ''C1'', rect = Some (0, 0, 100, 50), parent_tree = Some 0,
       colour = (70, 80, 90), subtrees = [], data_size = 5, expanded = False,
       kind = Generic\<rparr>"
  "docstring_tree 2 = \<lparr>name = ''C2'', rect = Some (0, 50, 100, 150), parent_tree = Some 0,
       colour = (40, 50, 60), subtrees = [], data_size = 15, expanded = False,
       kind = Generic\<rparr>"
  by code_simp+

lemma docstring_tree_well_formed: "well_formed {0, 1, 2} docstring_tree"
proof -
  have up: "up_ranked {0, 1, 2} docstring_tree (\<lambda>a. if a = 0 then 0 else 1)"
    by (simp add: up_ranked_def docstring_tree_nodes)
  have down: "down_ranked {0, 1, 2} docstring_tree (\<lambda>a. if a = 0 then 1 else 0)"
    by (simp add: down_ranked_def docstring_tree_nodes)
  have "closed {0, 1, 2} docstring_tree"
    by (simp add: closed_def docstring_tree_nodes)
  moreover have "\<forall>a\<in>{0, 1, 2}. distinct (subtrees (docstring_tree a))"
    by (simp add: docstring_tree_nodes)
  ultimately have "forest {0, 1, 2} docstring_tree"
    unfolding forest_def using up down by blast
  moreover have "\<forall>a\<in>{0, 1, 2}. core_inv docstring_tree a"
    by (simp add: core_inv_def children_total_def colour_ok_def docstring_tree_nodes)
  ultimately show ?thesis by (simp add: well_formed_core)
qed


section \<open>Collapse and expand\<close>

text \<open>
  Claim C8. In a well-formed store, let \<open>n\<close> be a leaf of the displayed tree with parent
  \<open>p\<close>. Given enough steps, \<open>n.collapse()\<close> returns \<open>p\<close>; after it \<open>p\<close> and every object
  below \<open>p\<close> is unexpanded; and after \<open>p.expand()\<close> the flag of \<open>p\<close> is set again, the
  flag of \<open>n\<close> is still unset, and \<open>n\<close> is a leaf of the displayed tree again.
\<close>

theorem collapse_then_expand:
  assumes "well_formed A h" and "n \<in> A" and "is_displayed_tree_leaf h n"
    and "parent_tree (h n) = Some p"
  shows "\<exists>k. \<forall>fuel\<ge>k. \<exists>h1.
           collapse fuel n h = Some (p, h1)
           \<and> \<not> expanded (h1 p) \<and> (\<forall>x\<in>A. p \<in> ancestors h x \<longrightarrow> \<not> expanded (h1 x))
           \<and> expanded (snd (expand p h1) p) \<and> \<not> expanded (snd (expand p h1) n)
           \<and> is_displayed_tree_leaf (snd (expand p h1)) n"
proof -
  from well_formedD(4,5)[OF assms(1)] obtain dp ht
    where dp: "up_ranked A h dp" and ht: "down_ranked A h ht" by blast
  note l = well_formed_linked[OF assms(1)]
  note cl = well_formedD(1)[OF assms(1)]
  have pA: "p \<in> A" using closedD(2)[OF cl assms(2,4)] .
  have pn: "p \<in> ancestors h n" using assms(4) by (rule ancestors.parent)
  have np: "n \<noteq> p" using not_own_ancestor[OF cl dp assms(2)] pn by blast
  have kid: "n \<in> set (subtrees (h p))" using linkedD(2)[OF l assms(2,4)] .
  have "\<exists>h1. collapse fuel n h = Some (p, h1)
           \<and> \<not> expanded (h1 p) \<and> (\<forall>x\<in>A. p \<in> ancestors h x \<longrightarrow> \<not> expanded (h1 x))
           \<and> expanded (snd (expand p h1) p) \<and> \<not> expanded (snd (expand p h1) n)
           \<and> is_displayed_tree_leaf (snd (expand p h1)) n" if "ht p \<le> fuel" for fuel
  proof -
    from collapse_lowered[OF l ht assms(2,4) that]
    obtain h1 where h1: "collapse fuel n h = Some (p, h1)" "lowered A {p} h h1" by blast
    note f = same_but_expanded_fields[OF loweredD(1)[OF h1(2)]]
    have a: "\<not> expanded (h1 p)" using loweredD(3)[OF h1(2) pA] by simp
    have b: "\<not> expanded (h1 x)" if "x \<in> A" "p \<in> ancestors h x" for x
      using loweredD(3)[OF h1(2) that(1)] that(2) by blast
    have ne: "subtrees (h1 p) \<noteq> []" using kid f(1)[of p] by auto
    then have e: "snd (expand p h1) = h1(p := (h1 p)\<lparr>expanded := True\<rparr>)"
      by (simp add: expand_def)
    have c: "expanded (snd (expand p h1) p)" unfolding e by simp
    have d: "\<not> expanded (snd (expand p h1) n)" unfolding e using np b[OF assms(2) pn] by simp
    have "parent_tree (snd (expand p h1) n) = Some p" unfolding e using np f(2)[of n] assms(4) by simp
    with c d have "is_displayed_tree_leaf (snd (expand p h1)) n"
      by (simp add: is_displayed_tree_leaf_def)
    with h1(1) a b c d show ?thesis by blast
  qed
  then show ?thesis by blast
qed

text \<open>
  The claim at work on the docstring example: \<open>s1.collapse()\<close> followed by \<open>t3.expand()\<close>.
\<close>

theorem collapse_then_expand_witness:
  "\<exists>k. \<forall>fuel\<ge>k. \<exists>h1.
     collapse fuel 1 docstring_tree = Some (0, h1)
     \<and> \<not> expanded (h1 0)
     \<and> expanded (snd (expand 0 h1) 0) \<and> \<not> expanded (snd (expand 0 h1) 1)
     \<and> is_displayed_tree_leaf (snd (expand 0 h1)) 1"
proof -
  have leaf: "is_displayed_tree_leaf docstring_tree 1"
    by (simp add: is_displayed_tree_leaf_def docstring_tree_nodes)
  have par: "parent_tree (docstring_tree 1) = Some 0"
    by (simp add: docstring_tree_nodes)
  have "(1::nat) \<in> {0, 1, 2}" by simp
  from collapse_then_expand[OF docstring_tree_well_formed this leaf par]
  show ?thesis by blast
qed

section \<open>Chains of ancestors and sums over subtrees\<close>

lemma ancestors_subset:
  "p \<in> ancestors h a \<Longrightarrow> ancestors h p \<subseteq> ancestors h a"
  using ancestors_trans by blast

lemma no_cycle:
  assumes "closed A h" "up_ranked A h dp" "a \<in> A" "p \<in> ancestors h a"
  shows "a \<notin> ancestors h p" and "a \<noteq> p"
proof -
  have "p \<in> A" using ancestors_closed[OF assms(1,3,4)] .
  show "a \<notin> ancestors h p"
  proof
    assume "a \<in> ancestors h p"
    then have "a \<in> ancestors h a" using assms(4) by (rule ancestors_trans)
    then show False using not_own_ancestor[OF assms(1,2,3)] by blast
  qed
  show "a \<noteq> p" using not_own_ancestor[OF assms(1,2,3)] assms(4) by blast
qed

lemma chain_child_unique:
  assumes "closed A h" "up_ranked A h dp"
  shows "a \<in> A \<Longrightarrow> c1 \<in> insert a (ancestors h a) \<Longrightarrow> c2 \<in> insert a (ancestors h a) \<Longrightarrow>
           parent_tree (h c1) = Some x \<Longrightarrow> parent_tree (h c2) = Some x \<Longrightarrow> c1 = c2"
proof (induction "dp a" arbitrary: a rule: less_induct)
  case less
  show ?case
  proof (cases "parent_tree (h a)")
    case None
    then have "ancestors h a = {}" by (rule ancestors_of_root)
    with less.prems show ?thesis by simp
  next
    case (Some p)
    have anc: "ancestors h a = insert p (ancestors h p)" using Some by (rule ancestors_of_parent)
    have pA: "p \<in> A" using closedD(2)[OF assms(1) less.prems(1) Some] .
    have dpp: "dp p < dp a" using up_rankedD[OF assms(2) less.prems(1) Some] .
    have side: False if "c \<in> insert p (ancestors h p)" "parent_tree (h c) = Some p" for c
    proof -
      have "p \<in> ancestors h c" using that(2) by (rule ancestors.parent)
      moreover have "c \<in> A" using that(1) pA ancestors_closed[OF assms(1) pA] by blast
      ultimately show False
        using that(1) no_cycle[OF assms(1,2) \<open>c \<in> A\<close> \<open>p \<in> ancestors h c\<close>] by blast
    qed
    consider "c1 = a" "c2 = a" | "c1 = a" "c2 \<in> insert p (ancestors h p)"
      | "c2 = a" "c1 \<in> insert p (ancestors h p)"
      | "c1 \<in> insert p (ancestors h p)" "c2 \<in> insert p (ancestors h p)"
      using less.prems(2,3) anc by blast
    then show ?thesis
    proof cases
      case 1
      then show ?thesis by simp
    next
      case 2
      with less.prems(4) Some have "x = p" by simp
      with side[OF 2(2)] less.prems(5) show ?thesis by simp
    next
      case 3
      with less.prems(5) Some have "x = p" by simp
      with side[OF 3(2)] less.prems(4) show ?thesis by simp
    next
      case 4
      show ?thesis by (rule less.hyps[OF dpp pA 4 less.prems(4,5)])
    qed
  qed
qed

lemma sum_list_one_shifted:
  fixes f :: "'a \<Rightarrow> int"
  assumes "distinct cs"
    and "\<And>c1 c2. c1 \<in> set cs \<Longrightarrow> c2 \<in> set cs \<Longrightarrow> c1 \<in> S \<Longrightarrow> c2 \<in> S \<Longrightarrow> c1 = c2"
  shows "sum_list (map (\<lambda>c. f c + (if c \<in> S then d else 0)) cs)
           = sum_list (map f cs) + (if set cs \<inter> S \<noteq> {} then d else 0)"
  using assms
proof (induction cs)
  case Nil
  then show ?case by simp
next
  case (Cons c cs)
  have IH: "sum_list (map (\<lambda>c. f c + (if c \<in> S then d else 0)) cs)
           = sum_list (map f cs) + (if set cs \<inter> S \<noteq> {} then d else 0)"
    by (rule Cons.IH) (use Cons.prems in auto)
  show ?case
  proof (cases "c \<in> S")
    case True
    have "set cs \<inter> S = {}"
    proof (rule ccontr)
      assume "set cs \<inter> S \<noteq> {}"
      then obtain c' where c': "c' \<in> set cs" "c' \<in> S" by blast
      then have "c = c'" using Cons.prems(2)[of c c'] True by simp
      with c'(1) Cons.prems(1) show False by simp
    qed
    with True IH show ?thesis by simp
  next
    case False
    then have "(set (c # cs) \<inter> S \<noteq> {}) = (set cs \<inter> S \<noteq> {})" by auto
    with False IH show ?thesis by simp
  qed
qed

lemma data_size_add_size:
  "data_size (add_size S d h x) = data_size (h x) + (if x \<in> S then d else 0)"
  by (simp add: add_size_def)

lemma add_size_fields:
  "subtrees (add_size S d h x) = subtrees (h x)"
  "parent_tree (add_size S d h x) = parent_tree (h x)"
  "expanded (add_size S d h x) = expanded (h x)"
  "kind (add_size S d h x) = kind (h x)"
  "name (add_size S d h x) = name (h x)"
  "colour (add_size S d h x) = colour (h x)"
  "rect (add_size S d h x) = rect (h x)"
  by (simp_all add: add_size_def)

text \<open>
  Adding to the sizes along the chain from \<open>a\<close> to its root changes the sum over a list
  of siblings by the same amount when one of them is on the chain, and not otherwise.
\<close>

lemma sum_siblings_shifted:
  assumes "closed A h" "up_ranked A h dp" "a \<in> A" "distinct cs"
    and "\<And>c. c \<in> set cs \<Longrightarrow> parent_tree (h c) = Some x"
  shows "sum_list (map (\<lambda>c. f c + (if c \<in> insert a (ancestors h a) then d else 0)) cs)
           = sum_list (map f cs) + (if set cs \<inter> insert a (ancestors h a) \<noteq> {} then d else (0::int))"
proof (rule sum_list_one_shifted[OF assms(4)])
  fix c1 c2 assume "c1 \<in> set cs" "c2 \<in> set cs"
    and "c1 \<in> insert a (ancestors h a)" "c2 \<in> insert a (ancestors h a)"
  then show "c1 = c2"
    using chain_child_unique[OF assms(1,2,3), of c1 c2 x] assms(5) by blast
qed

text \<open>A subtree of \<open>x\<close> is on the chain from \<open>a\<close> exactly when \<open>x\<close> is an ancestor of \<open>a\<close>.\<close>

lemma chain_meets_subtrees:
  assumes "linked A h" "a \<in> A" "x \<in> A"
  shows "set (subtrees (h x)) \<inter> insert a (ancestors h a) \<noteq> {} \<longleftrightarrow> x \<in> ancestors h a"
proof
  assume "set (subtrees (h x)) \<inter> insert a (ancestors h a) \<noteq> {}"
  then obtain c where c: "c \<in> set (subtrees (h x))" "c = a \<or> c \<in> ancestors h a" by blast
  have "parent_tree (h c) = Some x" using linkedD(3)[OF assms(1,3) c(1)] .
  with c(2) show "x \<in> ancestors h a" by (auto intro: ancestors.intros)
next
  assume "x \<in> ancestors h a"
  from ancestors_child[OF this]
  obtain c where c: "parent_tree (h c) = Some x" "c = a \<or> c \<in> ancestors h a" by blast
  have "c \<in> A" using c(2) assms(2) ancestors_closed[OF linkedD(1)[OF assms(1)] assms(2)] by blast
  then have "c \<in> set (subtrees (h x))" using c(1) by (rule linkedD(2)[OF assms(1)])
  with c(2) show "set (subtrees (h x)) \<inter> insert a (ancestors h a) \<noteq> {}" by blast
qed

lemma member_le_sum_list_int:
  fixes f :: "'a \<Rightarrow> int"
  assumes "\<And>c. c \<in> set cs \<Longrightarrow> 0 \<le> f c" "c \<in> set cs"
  shows "f c \<le> sum_list (map f cs)"
  using assms
proof (induction cs)
  case Nil
  then show ?case by simp
next
  case (Cons k cs)
  have nn: "0 \<le> sum_list (map f cs)" by (rule sum_list_nonneg) (use Cons.prems(1) in auto)
  show ?case
  proof (cases "c = k")
    case True
    with nn show ?thesis by simp
  next
    case False
    with Cons.prems(2) have "c \<in> set cs" by simp
    then have "f c \<le> sum_list (map f cs)" by (rule Cons.IH[rotated]) (use Cons.prems(1) in auto)
    moreover have "0 \<le> f k" using Cons.prems(1) by simp
    ultimately show ?thesis by simp
  qed
qed

text \<open>In a well-formed store a node is at least as large as each node below it.\<close>

lemma child_size_le:
  assumes "well_formed A h" "a \<in> A" "c \<in> set (subtrees (h a))"
  shows "data_size (h c) \<le> data_size (h a)"
proof -
  have sub: "set (subtrees (h a)) \<subseteq> A" using closedD(1)[OF well_formedD(1)[OF assms(1)] assms(2)] .
  have "data_size (h c) \<le> children_total h a"
    unfolding children_total_def
  proof (rule member_le_sum_list_int[OF _ assms(3)])
    fix k assume "k \<in> set (subtrees (h a))"
    with sub have "k \<in> A" by blast
    from core_invD(1)[OF well_formedD(2)[OF assms(1) this]] show "0 \<le> data_size (h k)" by simp
  qed
  moreover have "children_total h a \<le> data_size (h a)"
    by (rule core_invD(3)[OF well_formedD(2)[OF assms(1,2)]]) (use assms(3) in auto)
  ultimately show ?thesis by simp
qed

lemma ancestor_size_ge:
  assumes "well_formed A h" "a \<in> A" "x \<in> ancestors h a"
  shows "data_size (h a) \<le> data_size (h x)"
  using assms(3)
proof (induction rule: ancestors.induct)
  case (parent p)
  have pA: "p \<in> A" using closedD(2)[OF well_formedD(1)[OF assms(1)] assms(2) parent] .
  have "a \<in> set (subtrees (h p))"
    using core_invD(5)[OF well_formedD(2)[OF assms(1,2)] parent] .
  then show ?case by (rule child_size_le[OF assms(1) pA])
next
  case (above q p)
  have qA: "q \<in> A" using ancestors_closed[OF well_formedD(1)[OF assms(1)] assms(2) above(1)] .
  have pA: "p \<in> A" using closedD(2)[OF well_formedD(1)[OF assms(1)] qA above(2)] .
  have "q \<in> set (subtrees (h p))"
    using core_invD(5)[OF well_formedD(2)[OF assms(1) qA] above(2)] .
  then have "data_size (h q) \<le> data_size (h p)" by (rule child_size_le[OF assms(1) pA])
  with above.IH show ?case by simp
qed

lemma chain_rank:
  assumes "\<forall>x\<in>insert a (ancestors h a). \<forall>p. parent_tree (h x) = Some p \<longrightarrow> dp p < dp x"
    and "q \<in> ancestors h a"
  shows "(dp q :: nat) < dp a"
  using assms(2)
proof (induction rule: ancestors.induct)
  case (parent p)
  then show ?case using assms(1) by blast
next
  case (above q p)
  then have "dp p < dp q" using assms(1) by blast
  with above.IH show ?case by simp
qed

lemma walk_up_chain:
  assumes "\<forall>x\<in>insert cur (ancestors h cur). \<forall>p. parent_tree (h x) = Some p \<longrightarrow> dp p < dp x"
    and "dp cur < fuel"
    and "\<And>s. s self = h self \<Longrightarrow> amount s = d" and "self \<notin> ancestors h cur"
  shows "\<exists>r. walk_up fuel amount cur h = Some (r, add_size (ancestors h cur) d h)
            \<and> parent_tree (h r) = None \<and> (r = cur \<or> r \<in> ancestors h cur)"
  using assms
proof (induction fuel arbitrary: cur h)
  case 0
  then show ?case by simp
next
  case (Suc fuel)
  show ?case
  proof (cases "parent_tree (h cur)")
    case None
    then show ?thesis by (simp add: ancestors_of_root add_size_def)
  next
    case (Some p)
    let ?h1 = "h(p := (h p)\<lparr>data_size := data_size (h p) + amount h\<rparr>)"
    have am: "amount h = d" by (rule Suc.prems(3)) simp
    have anc: "ancestors h cur = insert p (ancestors h p)" using Some by (rule ancestors_of_parent)
    have par: "parent_tree (?h1 x) = parent_tree (h x)" for x by simp
    have anc1: "ancestors ?h1 x = ancestors h x" for x by (rule ancestors_cong) simp
    have sp: "self \<noteq> p" using Suc.prems(4) anc by auto
    have rk: "\<forall>x\<in>insert p (ancestors h p). \<forall>q. parent_tree (h x) = Some q \<longrightarrow> dp q < dp x"
      using Suc.prems(1) anc by blast
    have rk1: "\<forall>x\<in>insert p (ancestors ?h1 p). \<forall>q. parent_tree (?h1 x) = Some q \<longrightarrow> dp q < dp x"
      unfolding anc1 par by (rule rk)
    have "dp p < dp cur" using Suc.prems(1) Some by blast
    with Suc.prems(2) have dpp: "dp p < fuel" by simp
    have am1: "amount s = d" if "s self = ?h1 self" for s
      by (rule Suc.prems(3)) (use that sp in simp)
    have na: "self \<notin> ancestors ?h1 p" using Suc.prems(4) anc anc1 by auto
    from Suc.IH[OF rk1 dpp am1 na]
    obtain r where r: "walk_up fuel amount p ?h1 = Some (r, add_size (ancestors ?h1 p) d ?h1)"
      "parent_tree (?h1 r) = None" "r = p \<or> r \<in> ancestors ?h1 p" by blast
    have pp: "p \<notin> ancestors h p" using chain_rank[OF rk, of p] by blast
    have "add_size (ancestors ?h1 p) d ?h1 = add_size (ancestors h cur) d h"
      using pp am by (auto simp: add_size_def anc anc1 fun_eq_iff)
    moreover have "parent_tree (h r) = None" using r(2) par[of r] by simp
    moreover have "r = cur \<or> r \<in> ancestors h cur" using r(3) by (auto simp: anc anc1)
    ultimately show ?thesis using r(1) Some by simp
  qed
qed

lemma ancestors_cong_off:
  assumes "\<And>x. x \<noteq> n \<Longrightarrow> parent_tree (h' x) = parent_tree (h x)"
    and "a \<noteq> n" and "n \<notin> ancestors h a"
  shows "ancestors h' a = ancestors h a"
proof (intro set_eqI iffI)
  fix x assume "x \<in> ancestors h' a"
  then show "x \<in> ancestors h a"
  proof (induction rule: ancestors.induct)
    case (parent p)
    then have "parent_tree (h a) = Some p" using assms(1)[OF assms(2)] by simp
    then show ?case by (rule ancestors.parent)
  next
    case (above q p)
    have "q \<noteq> n" using above.IH assms(3) by blast
    then have "parent_tree (h q) = Some p" using assms(1) above(2) by simp
    with above.IH show ?case by (rule ancestors.above)
  qed
next
  fix x assume "x \<in> ancestors h a"
  then show "x \<in> ancestors h' a"
  proof (induction rule: ancestors.induct)
    case (parent p)
    then have "parent_tree (h' a) = Some p" using assms(1)[OF assms(2)] by simp
    then show ?case by (rule ancestors.parent)
  next
    case (above q p)
    have "q \<noteq> n" using above(1) assms(3) by blast
    then have "parent_tree (h' q) = Some p" using assms(1) above(2) by simp
    with above.IH show ?case by (rule ancestors.above)
  qed
qed

lemma up_ranked_chain:
  assumes "closed A h" "up_ranked A h dp" "a \<in> A"
  shows "\<forall>x\<in>insert a (ancestors h a). \<forall>p. parent_tree (h x) = Some p \<longrightarrow> dp p < dp x"
proof (intro ballI allI impI)
  fix x p assume x: "x \<in> insert a (ancestors h a)" "parent_tree (h x) = Some p"
  have "x \<in> A" using x(1) assms(3) ancestors_closed[OF assms(1,3)] by blast
  then show "dp p < dp x" using x(2) by (rule up_rankedD[OF assms(2)])
qed

section \<open>Resizing\<close>


lemma sum_list_pos_int:
  fixes f :: "'a \<Rightarrow> int"
  assumes "cs \<noteq> []" "\<And>c. c \<in> set cs \<Longrightarrow> 0 < f c"
  shows "0 < sum_list (map f cs)"
  using assms
proof (induction cs)
  case Nil
  then show ?case by simp
next
  case (Cons c cs)
  have "0 \<le> sum_list (map f cs)"
    by (rule sum_list_nonneg) (use Cons.prems(2) in \<open>auto intro: less_imp_le\<close>)
  moreover have "0 < f c" using Cons.prems(2) by simp
  ultimately show ?case by simp
qed

lemma children_total_pos:
  assumes "closed A h" "\<forall>a\<in>A. 0 < data_size (h a)" "a \<in> A" "subtrees (h a) \<noteq> []"
  shows "0 < children_total h a"
  unfolding children_total_def
proof (rule sum_list_pos_int[OF assms(4)])
  fix c assume "c \<in> set (subtrees (h a))"
  then have "c \<in> A" using closedD(1)[OF assms(1,3)] by blast
  with assms(2) show "0 < data_size (h c)" by blast
qed

text \<open>Laying the root out again ends normally, unless the root has no rectangle.\<close>

lemma relayout_result:
  assumes "closed A h" "down_ranked A h ht" "\<forall>a\<in>A. 0 < data_size (h a)" "r \<in> A" "ht r < fuel"
  shows "(rect (h r) = None \<and> relayout fuel r h = Raise TypeError h)
         \<or> (\<exists>h'. relayout fuel r h = Done h' \<and> same_but_rect h h')"
proof (cases "rect (h r)")
  case None
  then show ?thesis by (simp add: relayout_def)
next
  case (Some q)
  have nz: "\<forall>a\<in>A. 2 \<le> length (subtrees (h a)) \<longrightarrow> children_total h a \<noteq> 0"
  proof (intro ballI impI)
    fix a assume a: "a \<in> A" "2 \<le> length (subtrees (h a))"
    then have "subtrees (h a) \<noteq> []" by auto
    from children_total_pos[OF assms(1,3) a(1) this] show "children_total h a \<noteq> 0" by simp
  qed
  from update_rectangles_Done[OF assms(1,2) nz assms(4,5) same_but_rect_refl, of q]
  obtain h' where h': "update_rectangles fuel r q h = Done h'" by blast
  then have "final_heap (update_rectangles fuel r q h) = Some h'" by simp
  then have "same_but_rect h h'" by (rule update_rectangles_frame)
  with h' Some show ?thesis by (cases q) (simp add: relayout_def)
qed

text \<open>Adding to the sizes along the chain from \<open>a\<close> to its root.\<close>

lemma shifted_total:
  assumes "well_formed A h" "a \<in> A" "x \<in> A"
  shows "children_total (add_size (insert a (ancestors h a)) d h) x
           = children_total h x + (if x \<in> ancestors h a then d else 0)"
proof -
  from well_formedD(4)[OF assms(1)] obtain dp where dp: "up_ranked A h dp" by blast
  note cl = well_formedD(1)[OF assms(1)]
  note l = well_formed_linked[OF assms(1)]
  have "children_total (add_size (insert a (ancestors h a)) d h) x
          = sum_list (map (\<lambda>c. data_size (h c) + (if c \<in> insert a (ancestors h a) then d else 0))
                       (subtrees (h x)))"
    by (simp add: children_total_def add_size_fields data_size_add_size)
  also have "\<dots> = children_total h x
                 + (if set (subtrees (h x)) \<inter> insert a (ancestors h a) \<noteq> {} then d else 0)"
    unfolding children_total_def
    by (rule sum_siblings_shifted[OF cl dp assms(2) well_formedD(3)[OF assms(1,3)]])
       (rule linkedD(3)[OF l assms(3)])
  also have "\<dots> = children_total h x + (if x \<in> ancestors h a then d else 0)"
    using chain_meets_subtrees[OF l assms(2,3)] by simp
  finally show ?thesis .
qed

lemma shifted_sizes_positive:
  assumes "well_formed A h" "a \<in> A" "0 < data_size (h a) + d" "x \<in> A"
  shows "0 < data_size (add_size (insert a (ancestors h a)) d h x)"
proof (cases "x \<in> ancestors h a")
  case True
  from ancestor_size_ge[OF assms(1,2) True] assms(3) True show ?thesis
    by (simp add: data_size_add_size)
next
  case False
  have "0 < data_size (h x)" using core_invD(1)[OF well_formedD(2)[OF assms(1,4)]] .
  with False assms(3) show ?thesis by (cases "x = a") (simp_all add: data_size_add_size)
qed

lemma shifted_well_formed:
  assumes "well_formed A h" "a \<in> A" "0 < data_size (h a) + d"
    and "subtrees (h a) \<noteq> [] \<Longrightarrow> children_total h a \<le> data_size (h a) + d"
    and "kind (h a) \<noteq> Directory"
  shows "well_formed A (add_size (insert a (ancestors h a)) d h)"
proof -
  let ?h' = "add_size (insert a (ancestors h a)) d h"
  from well_formedD(4)[OF assms(1)] obtain dp where dp: "up_ranked A h dp" by blast
  have naa: "a \<notin> ancestors h a" using not_own_ancestor[OF well_formedD(1)[OF assms(1)] dp assms(2)] .
  have "forest A ?h' = forest A h" by (rule forest_cong) (simp_all add: add_size_fields)
  then have f: "forest A ?h'" using assms(1) by (simp add: well_formed_def)
  have "core_inv ?h' x" if xA: "x \<in> A" for x
  proof -
    note c = core_invD[OF well_formedD(2)[OF assms(1) xA]]
    note tot = shifted_total[OF assms(1,2) xA, of d]
    have sz: "data_size (?h' x) = data_size (h x) + (if x \<in> insert a (ancestors h a) then d else 0)"
      by (rule data_size_add_size)
    have 1: "0 < data_size (?h' x)" by (rule shifted_sizes_positive[OF assms(1,2,3) xA])
    have 3: "children_total ?h' x \<le> data_size (?h' x)" if "subtrees (?h' x) \<noteq> []"
    proof -
      from that have ne: "subtrees (h x) \<noteq> []" by (simp add: add_size_fields)
      show ?thesis
      proof (cases "x = a")
        case True
        with assms(4) ne naa show ?thesis unfolding tot sz by simp
      next
        case False
        with c(3)[OF ne] show ?thesis unfolding tot sz by simp
      qed
    qed
    have 9: "data_size (?h' x) = 1 + children_total ?h' x" if "kind (?h' x) = Directory"
    proof -
      from that have k: "kind (h x) = Directory" by (simp add: add_size_fields)
      with assms(5) have "x \<noteq> a" by auto
      with c(9)[OF k] show ?thesis unfolding tot sz by simp
    qed
    show ?thesis
      unfolding core_inv_def
    proof (intro conjI)
      show "0 < data_size (?h' x)" by (rule 1)
      show "name (?h' x) \<noteq> []" using c(2) by (simp add: add_size_fields)
      show "subtrees (?h' x) \<noteq> [] \<longrightarrow> children_total ?h' x \<le> data_size (?h' x)" using 3 by blast
      show "colour_ok (colour (?h' x))" using c(4) by (simp add: add_size_fields)
      show "\<forall>p. parent_tree (?h' x) = Some p \<longrightarrow> x \<in> set (subtrees (?h' p))"
        using c(5) by (simp add: add_size_fields)
      show "\<forall>c\<in>set (subtrees (?h' x)). parent_tree (?h' c) = Some x"
        using c(6) by (simp add: add_size_fields)
      show "\<forall>p. parent_tree (?h' x) = Some p \<longrightarrow> expanded (?h' x) \<longrightarrow> expanded (?h' p)"
        using c(7) by (simp add: add_size_fields)
      show "subtrees (?h' x) = [] \<longrightarrow> \<not> expanded (?h' x)"
        using c(8) by (simp add: add_size_fields)
      show "kind (?h' x) = Directory \<longrightarrow> data_size (?h' x) = 1 + children_total ?h' x"
        using 9 by blast
      show "kind (?h' x) = File \<longrightarrow> subtrees (?h' x) = []"
        using c(10) by (simp add: add_size_fields)
    qed
  qed
  with f show ?thesis by (simp add: well_formed_core)
qed


definition is_root_of :: "heap \<Rightarrow> addr \<Rightarrow> addr \<Rightarrow> bool" where
  "is_root_of h r a \<longleftrightarrow> parent_tree (h r) = None \<and> (r = a \<or> r \<in> ancestors h a)"

lemma root_unique:
  assumes "closed A h" "up_ranked A h dp"
  shows "a \<in> A \<Longrightarrow> is_root_of h r1 a \<Longrightarrow> is_root_of h r2 a \<Longrightarrow> r1 = r2"
proof (induction "dp a" arbitrary: a rule: less_induct)
  case less
  show ?case
  proof (cases "parent_tree (h a)")
    case None
    then have e: "ancestors h a = {}" by (rule ancestors_of_root)
    have "r1 = a" using less.prems(2) unfolding is_root_of_def e by blast
    moreover have "r2 = a" using less.prems(3) unfolding is_root_of_def e by blast
    ultimately show ?thesis by simp
  next
    case (Some p)
    have anc: "ancestors h a = insert p (ancestors h p)" using Some by (rule ancestors_of_parent)
    have pA: "p \<in> A" using closedD(2)[OF assms(1) less.prems(1) Some] .
    have dpp: "dp p < dp a" using up_rankedD[OF assms(2) less.prems(1) Some] .
    have up: "is_root_of h r p" if "is_root_of h r a" for r
    proof -
      from that have r: "parent_tree (h r) = None" "r = a \<or> r \<in> insert p (ancestors h p)"
        unfolding is_root_of_def anc by blast+
      from r(1) Some have "r \<noteq> a" by auto
      with r show ?thesis unfolding is_root_of_def by blast
    qed
    show ?thesis by (rule less.hyps[OF dpp pA up[OF less.prems(2)] up[OF less.prems(3)]])
  qed
qed




lemma root_exists:
  assumes "closed A h" "up_ranked A h dp" "a \<in> A"
  shows "\<exists>r. is_root_of h r a"
proof -
  have "\<exists>r. walk_up (Suc (dp a)) (\<lambda>s. 0) a h = Some (r, add_size (ancestors h a) 0 h)
          \<and> parent_tree (h r) = None \<and> (r = a \<or> r \<in> ancestors h a)"
    by (rule walk_up_chain[where self = a and dp = dp])
       (simp_all add: up_ranked_chain[OF assms] not_own_ancestor[OF assms])
  then show ?thesis unfolding is_root_of_def by blast
qed

lemma is_root_of_closed:
  assumes "closed A h" "a \<in> A" "is_root_of h r a"
  shows "r \<in> A"
  using assms(3) ancestors_closed[OF assms(1,2)] assms(2) unfolding is_root_of_def by blast





section \<open>Moving\<close>

text \<open>
  The store that \<open>move\<close> of the base class builds before it lays the root out again,
  when \<open>n\<close> with parent \<open>p\<close> is moved to \<open>d\<close>: \<open>d\<close> gets \<open>n\<close> as last subtree and is
  expanded, \<open>p\<close> loses \<open>n\<close> and is unexpanded if it had fewer than two subtrees, \<open>n\<close> gets
  \<open>d\<close> as parent, \<open>p\<close> and its ancestors lose the size of \<open>n\<close>, \<open>d\<close> and its ancestors gain
  it.
\<close>

definition moved :: "addr \<Rightarrow> addr \<Rightarrow> addr \<Rightarrow> heap \<Rightarrow> heap" where
  "moved n d p h =
     (\<lambda>x. (if x = d then (h x)\<lparr>subtrees := subtrees (h x) @ [n], expanded := True\<rparr>
            else if x = p then
              (h x)\<lparr>subtrees := remove1 n (subtrees (h x)),
                     expanded := (if length (subtrees (h x)) < 2 then False else expanded (h x))\<rparr>
            else if x = n then (h x)\<lparr>parent_tree := Some d\<rparr>
            else h x)
           \<lparr>data_size :=
              data_size (h x)
              + (if x \<in> insert d (ancestors h d) then data_size (h n) else 0)
              - (if x \<in> insert p (ancestors h p) then data_size (h n) else 0)\<rparr>)"

lemma moved_fields:
  "subtrees (moved n d p h x) =
     (if x = d then subtrees (h x) @ [n]
      else if x = p then remove1 n (subtrees (h x)) else subtrees (h x))"
  "parent_tree (moved n d p h x) =
     (if x = n \<and> x \<noteq> d \<and> x \<noteq> p then Some d else parent_tree (h x))"
  "expanded (moved n d p h x) =
     (if x = d then True
      else if x = p then (if length (subtrees (h x)) < 2 then False else expanded (h x))
      else expanded (h x))"
  "data_size (moved n d p h x) =
     data_size (h x)
     + (if x \<in> insert d (ancestors h d) then data_size (h n) else 0)
     - (if x \<in> insert p (ancestors h p) then data_size (h n) else 0)"
  "kind (moved n d p h x) = kind (h x)"
  "name (moved n d p h x) = name (h x)"
  "colour (moved n d p h x) = colour (h x)"
  "rect (moved n d p h x) = rect (h x)"
  by (simp_all add: moved_def)


lemma TMTree_move_relayout:
  assumes "closed A h" "up_ranked A h dp" "n \<in> A" "d \<in> A" "n \<noteq> d"
    and "parent_tree (h n) = Some p" "p \<noteq> d" "n \<in> set (subtrees (h p))"
    and "n \<notin> ancestors h d" "dp n < fuel" "Suc (dp d) < fuel"
  shows "\<exists>r. is_root_of h r d \<and> TMTree_move fuel n d h = relayout fuel r (moved n d p h)"
proof -
  let ?s = "data_size (h n)"
  let ?h1 = "h(d := (h d)\<lparr>subtrees := subtrees (h d) @ [n]\<rparr>)"
  let ?h2 = "if length (subtrees (h p)) < 2 then ?h1(p := (?h1 p)\<lparr>expanded := False\<rparr>) else ?h1"
  define h3 where "h3 = ?h2(p := (?h2 p)\<lparr>subtrees := remove1 n (subtrees (h p))\<rparr>)"
  define h4 where "h4 = add_size (ancestors h n) (- ?s) h3"
  define h6 where "h6 = (h4(n := (h4 n)\<lparr>parent_tree := Some d\<rparr>))
                          (d := ((h4(n := (h4 n)\<lparr>parent_tree := Some d\<rparr>)) d)\<lparr>expanded := True\<rparr>)"
  define h7 where "h7 = add_size (insert d (ancestors h d)) ?s h6"
  have pn: "p \<in> ancestors h n" using assms(6) by (rule ancestors.parent)
  have np: "n \<noteq> p" using no_cycle(2)[OF assms(1,2,3) pn] .
  have nan: "n \<notin> ancestors h n" using not_own_ancestor[OF assms(1,2,3)] .
  have ancn: "ancestors h n = insert p (ancestors h p)" using assms(6) by (rule ancestors_of_parent)
  have par3: "parent_tree (h3 x) = parent_tree (h x)" for x unfolding h3_def by simp
  have anc3: "ancestors h3 x = ancestors h x" for x by (rule ancestors_cong) (rule par3)
  have h3n: "h3 n = h n" unfolding h3_def using assms(5) np by simp
  have w1: "\<exists>r. walk_up fuel (\<lambda>s. - data_size (s n)) n h3
               = Some (r, add_size (ancestors h3 n) (- ?s) h3)
             \<and> parent_tree (h3 r) = None \<and> (r = n \<or> r \<in> ancestors h3 n)"
  proof (rule walk_up_chain[where self = n and dp = dp])
    show "\<forall>x\<in>insert n (ancestors h3 n). \<forall>q. parent_tree (h3 x) = Some q \<longrightarrow> dp q < dp x"
      unfolding anc3 par3 by (rule up_ranked_chain[OF assms(1,2,3)])
    show "dp n < fuel" by (rule assms(10))
    show "- data_size (s n) = - ?s" if "s n = h3 n" for s using that h3n by simp
    show "n \<notin> ancestors h3 n" unfolding anc3 by (rule nan)
  qed
  then obtain r1 where r1: "walk_up fuel (\<lambda>s. - data_size (s n)) n h3 = Some (r1, h4)"
    unfolding anc3 h4_def by blast
  have par4: "parent_tree (h4 x) = parent_tree (h x)" for x
    unfolding h4_def add_size_fields by (rule par3)
  have par6: "parent_tree (h6 x) = (if x = n then Some d else parent_tree (h x))" for x
    unfolding h6_def using assms(5) par4 by simp
  have anc6d: "ancestors h6 d = ancestors h d"
    by (rule ancestors_cong_off[where n = n]) (simp_all add: par6 assms(5)[symmetric] assms(9))
  have anc6n: "ancestors h6 n = insert d (ancestors h d)"
    using ancestors_of_parent[of h6 n d] par6[of n] anc6d by simp
  have h6n: "data_size (h6 n) = ?s"
    unfolding h6_def h4_def using assms(5) nan h3n by (simp add: add_size_def)
  have w2: "\<exists>r. walk_up fuel (\<lambda>s. data_size (s n)) n h6
               = Some (r, add_size (ancestors h6 n) ?s h6)
             \<and> parent_tree (h6 r) = None \<and> (r = n \<or> r \<in> ancestors h6 n)"
  proof (rule walk_up_chain[where self = n and dp = "\<lambda>x. if x = n then Suc (dp d) else dp x"])
    show "\<forall>x\<in>insert n (ancestors h6 n). \<forall>q. parent_tree (h6 x) = Some q \<longrightarrow>
            (if q = n then Suc (dp d) else dp q) < (if x = n then Suc (dp d) else dp x)"
    proof (intro ballI allI impI)
      fix x q assume x: "x \<in> insert n (ancestors h6 n)" "parent_tree (h6 x) = Some q"
      show "(if q = n then Suc (dp d) else dp q) < (if x = n then Suc (dp d) else dp x)"
      proof (cases "x = n")
        case True
        with x(2) have "q = d" by (simp add: par6)
        with True assms(5) show ?thesis by simp
      next
        case False
        with x(1) have xd: "x \<in> insert d (ancestors h d)" unfolding anc6n by simp
        from False x(2) have pq: "parent_tree (h x) = Some q" by (simp add: par6)
        have "dp q < dp x" using up_ranked_chain[OF assms(1,2,4)] xd pq by blast
        moreover have "q \<in> ancestors h d" using xd pq by (auto intro: ancestors.intros)
        then have "q \<noteq> n" using assms(9) by blast
        ultimately show ?thesis using False by simp
      qed
    qed
    show "(if n = n then Suc (dp d) else dp n) < fuel" using assms(11) by simp
    show "data_size (s n) = ?s" if "s n = h6 n" for s using that h6n by simp
    show "n \<notin> ancestors h6 n" unfolding anc6n using assms(5,9) by simp
  qed
  then obtain r where r: "walk_up fuel (\<lambda>s. data_size (s n)) n h6 = Some (r, h7)"
    "parent_tree (h6 r) = None" "r = n \<or> r \<in> insert d (ancestors h d)"
    unfolding anc6n h7_def by blast
  have rn: "r \<noteq> n" using r(2) by (auto simp: par6)
  then have root: "is_root_of h r d" using r(2,3) unfolding is_root_of_def by (simp add: par6)
  have eq: "h7 = moved n d p h"
  proof (rule ext)
    fix x
    consider "x = d" | "x = p" | "x = n" | "x \<noteq> d" "x \<noteq> p" "x \<noteq> n" by blast
    then show "h7 x = moved n d p h x"
    proof cases
      case 1
      then show ?thesis unfolding h7_def h6_def h4_def h3_def using assms(5,7)
        by (simp add: moved_def add_size_def ancn)
    next
      case 2
      then show ?thesis unfolding h7_def h6_def h4_def h3_def using assms(7) np
        by (simp add: moved_def add_size_def ancn)
    next
      case 3
      then show ?thesis unfolding h7_def h6_def h4_def h3_def using assms(5,9) np nan
        by (simp add: moved_def add_size_def ancn[symmetric])
    next
      case 4
      then show ?thesis unfolding h7_def h6_def h4_def h3_def
        by (simp add: moved_def add_size_def ancn)
    qed
  qed
  have sub2: "subtrees (?h2 p) = subtrees (h p)" using assms(7) by simp
  have mem2: "n \<in> set (subtrees (?h2 p))" unfolding sub2 by (rule assms(8))
  have len1: "length (subtrees (?h1 p)) = length (subtrees (h p))" using assms(7) by simp
  have par1: "parent_tree (?h1 n) = Some p" using assms(5,6) by simp
  have "TMTree_move fuel n d h
          = (case walk_up fuel (\<lambda>s. - data_size (s n)) n h3 of
               None \<Rightarrow> OutOfFuel
             | Some (cur1, h4) \<Rightarrow>
                 let h5 = h4(n := (h4 n)\<lparr>parent_tree := Some d\<rparr>);
                     h6 = h5(d := (h5 d)\<lparr>expanded := True\<rparr>)
                 in case walk_up fuel (\<lambda>s. data_size (s n)) n h6 of
                      None \<Rightarrow> OutOfFuel
                    | Some (cur2, h7) \<Rightarrow> relayout fuel cur2 h7)"
    unfolding TMTree_move_def Let_def h3_def using assms(5) par1 len1 mem2 sub2 by simp
  also have "\<dots> = relayout fuel r h7"
    unfolding r1 option.case prod.case Let_def h6_def[symmetric] r(1) ..
  finally have "TMTree_move fuel n d h = relayout fuel r (moved n d p h)" unfolding eq .
  with root show ?thesis by (intro exI[of _ r] conjI)
qed


text \<open>
  The preconditions of \<open>move\<close> for a node \<open>n\<close> with parent \<open>p\<close> and a destination \<open>d\<close>:
  both are leaves of the displayed tree of a well-formed store, they differ, and the
  parent keeps a size other than zero.
\<close>

definition move_pre :: "addr set \<Rightarrow> heap \<Rightarrow> addr \<Rightarrow> addr \<Rightarrow> addr \<Rightarrow> bool" where
  "move_pre A h n d p \<longleftrightarrow>
     well_formed A h \<and> n \<in> A \<and> d \<in> A \<and> n \<noteq> d \<and>
     is_displayed_tree_leaf h n \<and> is_displayed_tree_leaf h d \<and>
     parent_tree (h n) = Some p \<and> data_size (h p) - data_size (h n) \<noteq> 0"

lemma move_preD:
  assumes "move_pre A h n d p"
  shows "well_formed A h" "n \<in> A" "d \<in> A" "n \<noteq> d" "is_displayed_tree_leaf h n"
    "is_displayed_tree_leaf h d" "parent_tree (h n) = Some p"
    "data_size (h p) - data_size (h n) \<noteq> 0"
  using assms unfolding move_pre_def by blast+

lemma displayed_leaf_flags:
  assumes "is_displayed_tree_leaf h a"
  shows "\<not> expanded (h a)" and "\<And>q. parent_tree (h a) = Some q \<Longrightarrow> expanded (h q)"
  using assms unfolding is_displayed_tree_leaf_def by (auto split: option.splits)

lemma well_formed_up:
  assumes "well_formed A h"
  shows "\<forall>a\<in>A. \<forall>p. parent_tree (h a) = Some p \<longrightarrow> expanded (h a) \<longrightarrow> expanded (h p)"
  using core_invD(7)[OF well_formedD(2)[OF assms]] by blast

lemma move_facts:
  assumes "move_pre A h n d p"
  shows "p \<in> A" and "expanded (h p)" and "\<not> expanded (h n)" and "\<not> expanded (h d)"
    and "p \<noteq> d" and "n \<noteq> p" and "n \<in> set (subtrees (h p))"
    and "n \<notin> ancestors h d" and "d \<notin> ancestors h p" and "n \<notin> ancestors h p"
    and "n \<notin> set (subtrees (h d))" and "0 < data_size (h n)"
    and "data_size (h n) < data_size (h p)"
proof -
  note wf = move_preD(1)[OF assms] and nA = move_preD(2)[OF assms] and dA = move_preD(3)[OF assms]
    and par = move_preD(7)[OF assms]
  note cl = well_formedD(1)[OF wf]
  from well_formedD(4)[OF wf] obtain dp where dp: "up_ranked A h dp" by blast
  show pA: "p \<in> A" using closedD(2)[OF cl nA par] .
  show ep: "expanded (h p)" using displayed_leaf_flags(2)[OF move_preD(5)[OF assms] par] .
  show en: "\<not> expanded (h n)" using displayed_leaf_flags(1)[OF move_preD(5)[OF assms]] .
  show ed: "\<not> expanded (h d)" using displayed_leaf_flags(1)[OF move_preD(6)[OF assms]] .
  show pd: "p \<noteq> d" using ep ed by auto
  have pn: "p \<in> ancestors h n" using par by (rule ancestors.parent)
  show "n \<noteq> p" using no_cycle(2)[OF cl dp nA pn] .
  show kid: "n \<in> set (subtrees (h p))" using core_invD(5)[OF well_formedD(2)[OF wf nA] par] .
  show "n \<notin> ancestors h d"
  proof
    assume a: "n \<in> ancestors h d"
    then obtain q where q: "parent_tree (h d) = Some q"
      by (cases "parent_tree (h d)") (auto simp: ancestors_of_root)
    have eq: "expanded (h q)" using displayed_leaf_flags(2)[OF move_preD(6)[OF assms] q] .
    have qA: "q \<in> A" using closedD(2)[OF cl dA q] .
    have "ancestors h d = insert q (ancestors h q)" using q by (rule ancestors_of_parent)
    with a have "n \<in> insert q (ancestors h q)" by simp
    then have "q = n \<or> n \<in> ancestors h q" by auto
    then show False
    proof
      assume "q = n" with eq en show False by simp
    next
      assume "n \<in> ancestors h q"
      from collapsed_below[OF cl well_formed_up[OF wf] qA this en] eq show False by simp
    qed
  qed
  show "d \<notin> ancestors h p"
  proof
    assume "d \<in> ancestors h p"
    from collapsed_below[OF cl well_formed_up[OF wf] pA this ed] ep show False by simp
  qed
  show "n \<notin> ancestors h p" using no_cycle(1)[OF cl dp nA pn] .
  show "n \<notin> set (subtrees (h d))"
  proof
    assume "n \<in> set (subtrees (h d))"
    from core_invD(6)[OF well_formedD(2)[OF wf dA] this] par pd show False by simp
  qed
  show "0 < data_size (h n)" using core_invD(1)[OF well_formedD(2)[OF wf nA]] .
  have "data_size (h n) \<le> data_size (h p)" using child_size_le[OF wf pA kid] .
  with move_preD(8)[OF assms] show "data_size (h n) < data_size (h p)" by simp
qed


lemma moved_sum:
  assumes "move_pre A h n d p" and "distinct cs"
    and "\<And>c. c \<in> set cs \<Longrightarrow> parent_tree (h c) = Some x"
  shows "sum_list (map (\<lambda>c. data_size (moved n d p h c)) cs)
           = sum_list (map (\<lambda>c. data_size (h c)) cs)
             + (if set cs \<inter> insert d (ancestors h d) \<noteq> {} then data_size (h n) else 0)
             - (if set cs \<inter> insert p (ancestors h p) \<noteq> {} then data_size (h n) else 0)"
proof -
  let ?s = "data_size (h n)"
  note wf = move_preD(1)[OF assms(1)]
  note cl = well_formedD(1)[OF wf]
  from well_formedD(4)[OF wf] obtain dp where dp: "up_ranked A h dp" by blast
  have "sum_list (map (\<lambda>c. data_size (moved n d p h c)) cs)
          = sum_list (map (\<lambda>c. (data_size (h c) + (if c \<in> insert d (ancestors h d) then ?s else 0))
                                 + (if c \<in> insert p (ancestors h p) then - ?s else 0)) cs)"
    by (rule arg_cong[where f = sum_list], rule map_cong[OF refl]) (simp add: moved_fields)
  also have "\<dots> = sum_list (map (\<lambda>c. data_size (h c)
                                       + (if c \<in> insert d (ancestors h d) then ?s else 0)) cs)
                  + (if set cs \<inter> insert p (ancestors h p) \<noteq> {} then - ?s else 0)"
    by (rule sum_siblings_shifted[OF cl dp move_facts(1)[OF assms(1)] assms(2,3)])
  also have "sum_list (map (\<lambda>c. data_size (h c)
                               + (if c \<in> insert d (ancestors h d) then ?s else 0)) cs)
               = sum_list (map (\<lambda>c. data_size (h c)) cs)
                 + (if set cs \<inter> insert d (ancestors h d) \<noteq> {} then ?s else 0)"
    by (rule sum_siblings_shifted[OF cl dp move_preD(3)[OF assms(1)] assms(2,3)])
  finally show ?thesis by simp
qed

text \<open>In the moved store, the sum of the subtrees' sizes changes as the node's own size does.\<close>

lemma moved_total:
  assumes "move_pre A h n d p" and "x \<in> A"
  shows "children_total (moved n d p h) x - children_total h x
           = data_size (moved n d p h x) - data_size (h x)"
proof -
  let ?s = "data_size (h n)"
  let ?D = "insert d (ancestors h d)" and ?P = "insert p (ancestors h p)"
  note wf = move_preD(1)[OF assms(1)]
  note l = well_formed_linked[OF wf]
  note f = move_facts[OF assms(1)]
  note nA = move_preD(2)[OF assms(1)] and dA = move_preD(3)[OF assms(1)]
  from well_formedD(4)[OF wf] obtain dp where dp: "up_ranked A h dp" by blast
  note cl = well_formedD(1)[OF wf]
  have kids: "parent_tree (h c) = Some x" if "c \<in> set (subtrees (h x))" for c
    using linkedD(3)[OF l assms(2) that] .
  have dist: "distinct (subtrees (h x))" using well_formedD(3)[OF wf assms(2)] .
  have meetD: "set (subtrees (h x)) \<inter> ?D \<noteq> {} \<longleftrightarrow> x \<in> ancestors h d"
    by (rule chain_meets_subtrees[OF l dA assms(2)])
  have meetP: "set (subtrees (h x)) \<inter> ?P \<noteq> {} \<longleftrightarrow> x \<in> ancestors h p"
    by (rule chain_meets_subtrees[OF l f(1) assms(2)])
  have dd: "d \<notin> ancestors h d" using not_own_ancestor[OF cl dp dA] .
  have pp: "p \<notin> ancestors h p" using not_own_ancestor[OF cl dp f(1)] .
  have nD: "n \<notin> ?D" using f(8) move_preD(4)[OF assms(1)] by simp
  have nP: "n \<notin> ?P" using f(6,10) by simp
  have szn: "data_size (moved n d p h n) = ?s" using nD nP by (simp add: moved_fields)
  have sz: "data_size (moved n d p h x) - data_size (h x)
              = (if x \<in> ?D then ?s else 0) - (if x \<in> ?P then ?s else 0)"
    by (simp add: moved_fields)
  consider "x = d" | "x = p" | "x \<noteq> d" "x \<noteq> p" by blast
  then show ?thesis
  proof cases
    case 1
    have "children_total (moved n d p h) d
            = sum_list (map (\<lambda>c. data_size (moved n d p h c)) (subtrees (h d))) + ?s"
      using szn by (simp add: children_total_def moved_fields)
    also have "sum_list (map (\<lambda>c. data_size (moved n d p h c)) (subtrees (h d)))
                 = children_total h d
                   + (if set (subtrees (h d)) \<inter> ?D \<noteq> {} then ?s else 0)
                   - (if set (subtrees (h d)) \<inter> ?P \<noteq> {} then ?s else 0)"
      unfolding children_total_def
      using moved_sum[OF assms(1) dist[unfolded 1] kids[unfolded 1]] by blast
    also have "\<dots> = children_total h d"
      using meetD meetP dd f(9) unfolding 1 by simp
    finally show ?thesis unfolding 1 sz[unfolded 1] using f(5,9) by simp
  next
    case 2
    let ?cs = "remove1 n (subtrees (h p))"
    have sets: "set ?cs = set (subtrees (h p)) - {n}" using dist unfolding 2 by simp
    have "children_total (moved n d p h) p
            = sum_list (map (\<lambda>c. data_size (moved n d p h c)) ?cs)"
      using f(5) by (simp add: children_total_def moved_fields)
    also have "\<dots> = sum_list (map (\<lambda>c. data_size (h c)) ?cs)
                   + (if set ?cs \<inter> ?D \<noteq> {} then ?s else 0)
                   - (if set ?cs \<inter> ?P \<noteq> {} then ?s else 0)"
    proof (rule moved_sum[OF assms(1)])
      show "distinct ?cs" using dist unfolding 2 by simp
      show "parent_tree (h c) = Some p" if "c \<in> set ?cs" for c
        using that kids[unfolded 2, of c] sets by blast
    qed
    also have "sum_list (map (\<lambda>c. data_size (h c)) ?cs) = children_total h p - ?s"
      unfolding children_total_def using sum_list_map_remove1[OF f(7), of "\<lambda>c. data_size (h c)"]
      by simp
    also have "set ?cs \<inter> ?D \<noteq> {} \<longleftrightarrow> p \<in> ancestors h d"
      using meetD[unfolded 2] nD unfolding sets by blast
    also have "set ?cs \<inter> ?P \<noteq> {} \<longleftrightarrow> False"
      using meetP[unfolded 2] pp unfolding sets by blast
    finally show ?thesis unfolding 2 sz[unfolded 2] using f(5) by simp
  next
    case 3
    have "children_total (moved n d p h) x
            = sum_list (map (\<lambda>c. data_size (moved n d p h c)) (subtrees (h x)))"
      using 3 by (simp add: children_total_def moved_fields)
    also have "\<dots> = children_total h x
                   + (if set (subtrees (h x)) \<inter> ?D \<noteq> {} then ?s else 0)
                   - (if set (subtrees (h x)) \<inter> ?P \<noteq> {} then ?s else 0)"
      unfolding children_total_def using moved_sum[OF assms(1) dist kids] by blast
    finally show ?thesis unfolding sz meetD meetP using 3 by simp
  qed
qed


lemma two_members_length:
  assumes "a \<in> set xs" "b \<in> set xs" "a \<noteq> b"
  shows "\<not> length xs < 2"
proof (cases xs)
  case Nil
  with assms show ?thesis by simp
next
  case (Cons y ys)
  with assms have "ys \<noteq> []" by auto
  with Cons show ?thesis by (cases ys) auto
qed

lemma moved_size_pos:
  assumes "move_pre A h n d p" and "x \<in> A"
  shows "0 < data_size (moved n d p h x)"
proof -
  note wf = move_preD(1)[OF assms(1)]
  note f = move_facts[OF assms(1)]
  have pos: "0 < data_size (h x)" using core_invD(1)[OF well_formedD(2)[OF wf assms(2)]] .
  have big: "data_size (h n) < data_size (h x)" if "x \<in> insert p (ancestors h p)"
  proof (cases "x = p")
    case True
    with f(13) show ?thesis by simp
  next
    case False
    with that have "x \<in> ancestors h p" by simp
    from ancestor_size_ge[OF wf f(1) this] f(13) show ?thesis by simp
  qed
  show ?thesis
  proof (cases "x \<in> insert p (ancestors h p)")
    case True
    from big[OF True] f(12) True show ?thesis by (simp add: moved_fields)
  next
    case False
    with pos f(12) show ?thesis by (simp add: moved_fields)
  qed
qed

lemma moved_closed:
  assumes "move_pre A h n d p"
  shows "closed A (moved n d p h)"
proof -
  note wf = move_preD(1)[OF assms]
  note cl = well_formedD(1)[OF wf]
  note nA = move_preD(2)[OF assms] and dA = move_preD(3)[OF assms]
  have "set (subtrees (moved n d p h a)) \<subseteq> A" if "a \<in> A" for a
  proof -
    have "set (subtrees (moved n d p h a)) \<subseteq> insert n (set (subtrees (h a)))"
      using set_remove1_subset[of n "subtrees (h a)"] by (auto simp: moved_fields)
    with closedD(1)[OF cl that] nA show ?thesis by blast
  qed
  moreover have "q \<in> A" if "a \<in> A" "parent_tree (moved n d p h a) = Some q" for a q
    using that closedD(2)[OF cl that(1)] dA by (auto simp: moved_fields split: if_splits)
  ultimately show ?thesis unfolding closed_def by blast
qed

lemma moved_distinct:
  assumes "move_pre A h n d p" and "x \<in> A"
  shows "distinct (subtrees (moved n d p h x))"
  using well_formedD(3)[OF move_preD(1)[OF assms(1)] assms(2)] move_facts(11)[OF assms(1)]
  by (auto simp: moved_fields)

lemma moved_down_ranked:
  assumes "move_pre A h n d p" and "down_ranked A h ht"
  shows "down_ranked A (moved n d p h)
           (\<lambda>x. if x \<in> insert d (ancestors h d) then ht x + ht n + 1 else ht x)"
  unfolding down_ranked_def
proof (intro ballI)
  let ?D = "insert d (ancestors h d)"
  let ?ht = "\<lambda>x. if x \<in> ?D then ht x + ht n + 1 else ht x"
  note wf = move_preD(1)[OF assms(1)]
  note l = well_formed_linked[OF wf]
  note f = move_facts[OF assms(1)]
  fix a c assume a: "a \<in> A" and c: "c \<in> set (subtrees (moved n d p h a))"
  have old: "?ht k < ?ht a" if k: "k \<in> set (subtrees (h a))" for k
  proof -
    have lt: "ht k < ht a" using assms(2) a k by (rule down_rankedD)
    have "a \<in> ?D" if "k \<in> ?D"
    proof -
      have "parent_tree (h k) = Some a" using linkedD(3)[OF l a k] .
      with that have "a \<in> ancestors h d" by (auto intro: ancestors.intros)
      then show ?thesis by simp
    qed
    with lt show ?thesis by auto
  qed
  show "?ht c < ?ht a"
  proof (cases "a = d")
    case True
    with c have "c = n \<or> c \<in> set (subtrees (h a))" by (auto simp: moved_fields)
    then show ?thesis
    proof
      assume "c = n"
      moreover have "n \<notin> ?D" using f(8) move_preD(4)[OF assms(1)] by simp
      ultimately show ?thesis using True by simp
    next
      assume "c \<in> set (subtrees (h a))"
      then show ?thesis by (rule old)
    qed
  next
    case False
    with c have "c \<in> set (subtrees (h a))"
      using set_remove1_subset[of n "subtrees (h a)"] by (auto simp: moved_fields split: if_splits)
    then show ?thesis by (rule old)
  qed
qed

lemma moved_up_ranked:
  assumes "move_pre A h n d p" and "up_ranked A h dp"
  shows "up_ranked A (moved n d p h)
           (\<lambda>x. if n \<in> insert x (ancestors h x) then dp x + dp d + 1 else dp x)"
  unfolding up_ranked_def
proof (intro ballI allI impI)
  let ?dp = "\<lambda>x. if n \<in> insert x (ancestors h x) then dp x + dp d + 1 else dp x"
  note f = move_facts[OF assms(1)]
  fix a q assume a: "a \<in> A" and q: "parent_tree (moved n d p h a) = Some q"
  show "?dp q < ?dp a"
  proof (cases "a = n")
    case True
    with q f(6) move_preD(4)[OF assms(1)] have "q = d" by (simp add: moved_fields)
    moreover have "n \<notin> insert d (ancestors h d)" using f(8) move_preD(4)[OF assms(1)] by simp
    ultimately show ?thesis using True by simp
  next
    case False
    with q have pq: "parent_tree (h a) = Some q" by (simp add: moved_fields split: if_splits)
    have lt: "dp q < dp a" using assms(2) a pq by (rule up_rankedD)
    have anc: "ancestors h a = insert q (ancestors h q)" using pq by (rule ancestors_of_parent)
    have "n \<in> insert q (ancestors h q) \<longleftrightarrow> n \<in> insert a (ancestors h a)"
      unfolding anc using False by auto
    with lt show ?thesis by simp
  qed
qed

lemma moved_forest:
  assumes "move_pre A h n d p"
  shows "forest A (moved n d p h)"
proof -
  note wf = move_preD(1)[OF assms]
  from well_formedD(4,5)[OF wf] obtain dp ht
    where "up_ranked A h dp" "down_ranked A h ht" by blast
  from moved_up_ranked[OF assms this(1)] moved_down_ranked[OF assms this(2)]
    moved_closed[OF assms] moved_distinct[OF assms]
  show ?thesis unfolding forest_def by blast
qed


lemma total_le_size:
  assumes "well_formed A h" "x \<in> A"
  shows "children_total h x \<le> data_size (h x)"
proof (cases "subtrees (h x) = []")
  case True
  then have "children_total h x = 0" by (simp add: children_total_def)
  with core_invD(1)[OF well_formedD(2)[OF assms]] show ?thesis by simp
next
  case False
  then show ?thesis by (rule core_invD(3)[OF well_formedD(2)[OF assms]])
qed

lemma moved_core:
  assumes "move_pre A h n d p" and "x \<in> A" and "kind (h d) \<noteq> File"
  shows "core_inv (moved n d p h) x"
proof -
  let ?h' = "moved n d p h"
  note wf = move_preD(1)[OF assms(1)]
  note f = move_facts[OF assms(1)]
  note nd = move_preD(4)[OF assms(1)]
  note c = core_invD[OF well_formedD(2)[OF wf assms(2)]]
  note tot = moved_total[OF assms(1,2)]
  have dist: "distinct (subtrees (h x))" using well_formedD(3)[OF wf assms(2)] .
  have 1: "0 < data_size (?h' x)" by (rule moved_size_pos[OF assms(1,2)])
  have 3: "children_total ?h' x \<le> data_size (?h' x)"
    using total_le_size[OF wf assms(2)] tot by simp
  have 5: "x \<in> set (subtrees (?h' q))" if q: "parent_tree (?h' x) = Some q" for q
  proof (cases "x = n")
    case True
    with q f(6) nd have "q = d" by (simp add: moved_fields)
    with True show ?thesis by (simp add: moved_fields)
  next
    case False
    with q have "parent_tree (h x) = Some q" by (simp add: moved_fields split: if_splits)
    from c(5)[OF this] False show ?thesis by (auto simp: moved_fields)
  qed
  have 6: "parent_tree (?h' k) = Some x" if k: "k \<in> set (subtrees (?h' x))" for k
  proof -
    consider "x = d" | "x = p" | "x \<noteq> d" "x \<noteq> p" by blast
    then show ?thesis
    proof cases
      case 1
      with k have "k = n \<or> k \<in> set (subtrees (h x))" by (auto simp: moved_fields)
      then show ?thesis
      proof
        assume "k = n" with 1 f(6) nd show ?thesis by (simp add: moved_fields)
      next
        assume kk: "k \<in> set (subtrees (h x))"
        with f(11) 1 have "k \<noteq> n" by auto
        with c(6)[OF kk] show ?thesis by (simp add: moved_fields)
      qed
    next
      case 2
      with k f(5) have kk: "k \<in> set (remove1 n (subtrees (h x)))" by (simp add: moved_fields)
      with dist have "k \<noteq> n" "k \<in> set (subtrees (h x))" by auto
      with c(6)[of k] show ?thesis by (simp add: moved_fields)
    next
      case 3
      with k have kk: "k \<in> set (subtrees (h x))" by (simp add: moved_fields)
      have "k \<noteq> n"
      proof
        assume "k = n"
        with c(6)[OF kk] move_preD(7)[OF assms(1)] 3 show False by simp
      qed
      with c(6)[OF kk] show ?thesis by (simp add: moved_fields)
    qed
  qed
  have 7: "expanded (?h' q)" if q: "parent_tree (?h' x) = Some q" and e: "expanded (?h' x)" for q
  proof -
    have xn: "x \<noteq> n"
    proof
      assume "x = n"
      with e f(3,6) nd show False by (simp add: moved_fields)
    qed
    with q have pq: "parent_tree (h x) = Some q" by (simp add: moved_fields split: if_splits)
    have eq: "expanded (h q)"
    proof (cases "x = d")
      case True
      with pq show ?thesis using displayed_leaf_flags(2)[OF move_preD(6)[OF assms(1)]] by simp
    next
      case False
      with e have "expanded (h x)" by (simp add: moved_fields split: if_splits)
      with pq show ?thesis by (rule c(7))
    qed
    show ?thesis
    proof (cases "q = p")
      case True
      have "x \<in> set (subtrees (h p))" using c(5)[OF pq] True by simp
      from two_members_length[OF this f(7) xn] eq True f(5) show ?thesis
        by (simp add: moved_fields)
    next
      case False
      with eq show ?thesis by (simp add: moved_fields)
    qed
  qed
  have 8: "\<not> expanded (?h' x)" if e: "subtrees (?h' x) = []"
  proof -
    consider "x = d" | "x = p" "x \<noteq> d" | "x \<noteq> d" "x \<noteq> p" by blast
    then show ?thesis
    proof cases
      case 1
      with e show ?thesis by (simp add: moved_fields)
    next
      case 2
      with e have "remove1 n (subtrees (h p)) = []" by (simp add: moved_fields)
      then have "length (remove1 n (subtrees (h p))) = 0" by simp
      with f(7) have "length (subtrees (h p)) < 2" by (simp add: length_remove1)
      with 2 show ?thesis by (simp add: moved_fields)
    next
      case 3
      with e have "subtrees (h x) = []" by (simp add: moved_fields)
      from c(8)[OF this] 3 show ?thesis by (simp add: moved_fields)
    qed
  qed
  have 9: "data_size (?h' x) = 1 + children_total ?h' x" if "kind (?h' x) = Directory"
  proof -
    from that have "kind (h x) = Directory" by (simp add: moved_fields)
    from c(9)[OF this] tot show ?thesis by simp
  qed
  have 10: "subtrees (?h' x) = []" if k: "kind (?h' x) = File"
  proof -
    from k have kf: "kind (h x) = File" by (simp add: moved_fields)
    with assms(3) have xd: "x \<noteq> d" by auto
    have "x \<noteq> p" using c(10)[OF kf] f(7) by auto
    with xd c(10)[OF kf] show ?thesis by (simp add: moved_fields)
  qed
  show ?thesis
    unfolding core_inv_def
  proof (intro conjI)
    show "0 < data_size (?h' x)" by (rule 1)
    show "name (?h' x) \<noteq> []" using c(2) by (simp add: moved_fields)
    show "subtrees (?h' x) \<noteq> [] \<longrightarrow> children_total ?h' x \<le> data_size (?h' x)" using 3 by blast
    show "colour_ok (colour (?h' x))" using c(4) by (simp add: moved_fields)
    show "\<forall>q. parent_tree (?h' x) = Some q \<longrightarrow> x \<in> set (subtrees (?h' q))" using 5 by blast
    show "\<forall>k\<in>set (subtrees (?h' x)). parent_tree (?h' k) = Some x" using 6 by blast
    show "\<forall>q. parent_tree (?h' x) = Some q \<longrightarrow> expanded (?h' x) \<longrightarrow> expanded (?h' q)"
      using 7 by blast
    show "subtrees (?h' x) = [] \<longrightarrow> \<not> expanded (?h' x)" using 8 by blast
    show "kind (?h' x) = Directory \<longrightarrow> data_size (?h' x) = 1 + children_total ?h' x"
      using 9 by blast
    show "kind (?h' x) = File \<longrightarrow> subtrees (?h' x) = []" using 10 by blast
  qed
qed

lemma moved_well_formed:
  assumes "move_pre A h n d p" and "kind (h d) \<noteq> File"
  shows "well_formed A (moved n d p h)"
  unfolding well_formed_core
  using moved_forest[OF assms(1)] moved_core[OF assms(1) _ assms(2)] by blast


text \<open>
  What \<open>move\<close> of the base class comes to under its preconditions, given enough steps:
  the moved store, laid out again from the root of the destination; the call ends with
  \<open>TypeError\<close> and the moved store when that root has no rectangle.
\<close>

lemma TMTree_move_outcome:
  assumes "move_pre A h n d p"
  shows "\<exists>k r. is_root_of h r d \<and>
           (\<forall>fuel\<ge>k.
              (rect (h r) = None \<and> TMTree_move fuel n d h = Raise TypeError (moved n d p h))
              \<or> (\<exists>h'. TMTree_move fuel n d h = Done h' \<and> same_but_rect (moved n d p h) h'))"
proof -
  note wf = move_preD(1)[OF assms]
  note cl = well_formedD(1)[OF wf]
  note nA = move_preD(2)[OF assms] and dA = move_preD(3)[OF assms]
  note f = move_facts[OF assms]
  from well_formedD(4,5)[OF wf] obtain dp ht
    where dp: "up_ranked A h dp" and ht: "down_ranked A h ht" by blast
  let ?ht = "\<lambda>x. if x \<in> insert d (ancestors h d) then ht x + ht n + 1 else ht x"
  from root_exists[OF cl dp dA] obtain r0 where r0: "is_root_of h r0 d" by blast
  have r0A: "r0 \<in> A" using is_root_of_closed[OF cl dA r0] .
  let ?k = "max (Suc (dp n)) (max (Suc (Suc (dp d))) (Suc (?ht r0)))"
  have "(rect (h r0) = None \<and> TMTree_move fuel n d h = Raise TypeError (moved n d p h))
        \<or> (\<exists>h'. TMTree_move fuel n d h = Done h' \<and> same_but_rect (moved n d p h) h')"
    if fuel: "?k \<le> fuel" for fuel
  proof -
    have f1: "dp n < fuel" and f2: "Suc (dp d) < fuel" and f3: "?ht r0 < fuel"
      using fuel by simp_all
    from TMTree_move_relayout[OF cl dp nA dA move_preD(4)[OF assms] move_preD(7)[OF assms]
           f(5) f(7) f(8) f1 f2]
    obtain r where r: "is_root_of h r d" "TMTree_move fuel n d h = relayout fuel r (moved n d p h)"
      by blast
    have rr: "r = r0" using root_unique[OF cl dp dA r(1) r0] .
    have pos: "\<forall>a\<in>A. 0 < data_size (moved n d p h a)"
      using moved_size_pos[OF assms] by blast
    from relayout_result[OF moved_closed[OF assms] moved_down_ranked[OF assms ht] pos r0A f3]
    show ?thesis unfolding r(2) rr by (simp add: moved_fields)
  qed
  with r0 show ?thesis by blast
qed

lemma TMTree_move_heap:
  assumes "move_pre A h n d p"
  shows "\<exists>k. \<forall>fuel\<ge>k. TMTree_move fuel n d h \<noteq> OutOfFuel
           \<and> same_but_rect (moved n d p h) (heap_of (TMTree_move fuel n d h) h)"
proof -
  from TMTree_move_outcome[OF assms] obtain k r where
    k: "\<And>fuel. fuel \<ge> k \<Longrightarrow>
          (rect (h r) = None \<and> TMTree_move fuel n d h = Raise TypeError (moved n d p h))
          \<or> (\<exists>h'. TMTree_move fuel n d h = Done h' \<and> same_but_rect (moved n d p h) h')"
    by blast
  have "TMTree_move fuel n d h \<noteq> OutOfFuel
          \<and> same_but_rect (moved n d p h) (heap_of (TMTree_move fuel n d h) h)"
    if "fuel \<ge> k" for fuel
    using k[OF that] by (auto simp: same_but_rect_refl)
  then show ?thesis by blast
qed

lemma docstring_tree_move_pre: "move_pre {0, 1, 2} docstring_tree 2 1 0"
  unfolding move_pre_def
proof (intro conjI)
  show "well_formed {0, 1, 2} docstring_tree" by (rule docstring_tree_well_formed)
qed (simp_all add: is_displayed_tree_leaf_def docstring_tree_nodes)

section \<open>The old parent's flag\<close>

text \<open>
  Claim C3, counterexample. The claim says that after moving away one of exactly two
  subtrees the old parent is unexpanded. In the docstring example \<open>t3\<close> has the two
  subtrees \<open>s1\<close> and \<open>s2\<close>, both leaves of the displayed tree, and after \<open>s2.move(s1)\<close>,
  which raises nothing, \<open>t3\<close> is still expanded.
\<close>

theorem move_two_children_counterexample:
  "length (subtrees (docstring_tree 0)) = 2
   \<and> parent_tree (docstring_tree 2) = Some 0
   \<and> is_displayed_tree_leaf docstring_tree 2 \<and> is_displayed_tree_leaf docstring_tree 1
   \<and> raised (move 3 2 1 docstring_tree) = None
   \<and> expanded (heap_of (move 3 2 1 docstring_tree) docstring_tree 0)"
  by code_simp

text \<open>
  Claim C3, as amended. Under the preconditions of \<open>move\<close>, given enough steps, the old
  parent \<open>p\<close> is expanded after the move exactly when it had at least two subtrees before
  it: its flag is set to false exactly when \<open>n\<close> was its only subtree, and is left as it
  was (true) when \<open>p\<close> had two subtrees or more.
\<close>

theorem move_old_parent_flag:
  assumes "move_pre A h n d p"
  shows "\<exists>k. \<forall>fuel\<ge>k.
           TMTree_move fuel n d h \<noteq> OutOfFuel
           \<and> (expanded (heap_of (TMTree_move fuel n d h) h p) \<longleftrightarrow> 2 \<le> length (subtrees (h p)))"
proof -
  note f = move_facts[OF assms]
  have flag: "expanded (moved n d p h p) \<longleftrightarrow> 2 \<le> length (subtrees (h p))"
    using f(2,5) by (auto simp: moved_fields)
  from TMTree_move_heap[OF assms] obtain k where
    k: "\<And>fuel. fuel \<ge> k \<Longrightarrow> TMTree_move fuel n d h \<noteq> OutOfFuel
          \<and> same_but_rect (moved n d p h) (heap_of (TMTree_move fuel n d h) h)" by blast
  have "TMTree_move fuel n d h \<noteq> OutOfFuel
          \<and> (expanded (heap_of (TMTree_move fuel n d h) h p) \<longleftrightarrow> 2 \<le> length (subtrees (h p)))"
    if "fuel \<ge> k" for fuel
    using conjunct1[OF k[OF that]] flag
    unfolding same_but_rect_fields(4)[OF conjunct2[OF k[OF that]]] by blast
  then show ?thesis by blast
qed

theorem move_old_parent_flag_witness:
  "\<exists>k. \<forall>fuel\<ge>k.
     TMTree_move fuel 2 1 docstring_tree \<noteq> OutOfFuel
     \<and> expanded (heap_of (TMTree_move fuel 2 1 docstring_tree) docstring_tree 0)"
  using move_old_parent_flag[OF docstring_tree_move_pre]
  by (simp add: docstring_tree_nodes)

section \<open>Sizes under a move\<close>

text \<open>
  Claim C5. Under the preconditions of \<open>move\<close>, given enough steps: when the destination
  \<open>d\<close> and the old parent \<open>p\<close> have different roots, the root of \<open>d\<close> gains the size of
  \<open>n\<close> and the root of \<open>p\<close> loses it; when they have the same root, every node that is
  \<open>d\<close> or above it and also \<open>p\<close> or above it (the root among them) keeps its size.
\<close>

theorem move_size_conservation:
  assumes "move_pre A h n d p"
  shows "\<exists>k. \<forall>fuel\<ge>k.
           TMTree_move fuel n d h \<noteq> OutOfFuel
           \<and> (\<forall>rd rp. is_root_of h rd d \<and> is_root_of h rp p \<longrightarrow>
                 (rd \<noteq> rp \<longrightarrow>
                    data_size (heap_of (TMTree_move fuel n d h) h rd)
                      = data_size (h rd) + data_size (h n)
                    \<and> data_size (heap_of (TMTree_move fuel n d h) h rp)
                      = data_size (h rp) - data_size (h n))
                 \<and> (rd = rp \<longrightarrow>
                    (\<forall>x. x \<in> insert d (ancestors h d) \<and> x \<in> insert p (ancestors h p) \<longrightarrow>
                       data_size (heap_of (TMTree_move fuel n d h) h x) = data_size (h x))))"
proof -
  note wf = move_preD(1)[OF assms]
  note cl = well_formedD(1)[OF wf]
  note f = move_facts[OF assms]
  from well_formedD(4)[OF wf] obtain dp where dp: "up_ranked A h dp" by blast
  from TMTree_move_heap[OF assms] obtain k where
    k: "\<And>fuel. fuel \<ge> k \<Longrightarrow> TMTree_move fuel n d h \<noteq> OutOfFuel
          \<and> same_but_rect (moved n d p h) (heap_of (TMTree_move fuel n d h) h)" by blast
  have roots: "rd = rp" if "is_root_of h rd d" "is_root_of h rp p"
    "rd \<in> insert p (ancestors h p) \<or> rp \<in> insert d (ancestors h d)" for rd rp
  proof -
    from that(3) show ?thesis
    proof
      assume "rd \<in> insert p (ancestors h p)"
      with that(1) have "is_root_of h rd p" unfolding is_root_of_def by auto
      then show ?thesis using root_unique[OF cl dp f(1) _ that(2)] by blast
    next
      assume "rp \<in> insert d (ancestors h d)"
      with that(2) have "is_root_of h rp d" unfolding is_root_of_def by auto
      then show ?thesis using root_unique[OF cl dp move_preD(3)[OF assms] that(1)] by blast
    qed
  qed
  have goal: "(rd \<noteq> rp \<longrightarrow>
                 data_size (moved n d p h rd) = data_size (h rd) + data_size (h n)
                 \<and> data_size (moved n d p h rp) = data_size (h rp) - data_size (h n))
              \<and> (rd = rp \<longrightarrow>
                 (\<forall>x. x \<in> insert d (ancestors h d) \<and> x \<in> insert p (ancestors h p) \<longrightarrow>
                    data_size (moved n d p h x) = data_size (h x)))"
    if r: "is_root_of h rd d" "is_root_of h rp p" for rd rp
  proof (intro conjI impI allI)
    assume ne: "rd \<noteq> rp"
    have "rd \<in> insert d (ancestors h d)" using r(1) unfolding is_root_of_def by auto
    moreover have "rd \<notin> insert p (ancestors h p)" using roots[OF r] ne by blast
    ultimately show "data_size (moved n d p h rd) = data_size (h rd) + data_size (h n)"
      by (simp add: moved_fields)
    have "rp \<in> insert p (ancestors h p)" using r(2) unfolding is_root_of_def by auto
    moreover have "rp \<notin> insert d (ancestors h d)" using roots[OF r] ne by blast
    ultimately show "data_size (moved n d p h rp) = data_size (h rp) - data_size (h n)"
      by (simp add: moved_fields)
  next
    fix x assume "x \<in> insert d (ancestors h d) \<and> x \<in> insert p (ancestors h p)"
    then show "data_size (moved n d p h x) = data_size (h x)" by (simp add: moved_fields)
  qed
  have "TMTree_move fuel n d h \<noteq> OutOfFuel
           \<and> (\<forall>rd rp. is_root_of h rd d \<and> is_root_of h rp p \<longrightarrow>
                 (rd \<noteq> rp \<longrightarrow>
                    data_size (heap_of (TMTree_move fuel n d h) h rd)
                      = data_size (h rd) + data_size (h n)
                    \<and> data_size (heap_of (TMTree_move fuel n d h) h rp)
                      = data_size (h rp) - data_size (h n))
                 \<and> (rd = rp \<longrightarrow>
                    (\<forall>x. x \<in> insert d (ancestors h d) \<and> x \<in> insert p (ancestors h p) \<longrightarrow>
                       data_size (heap_of (TMTree_move fuel n d h) h x) = data_size (h x))))"
    if "fuel \<ge> k" for fuel
  proof -
    note s = same_but_rect_fields(3)[OF conjunct2[OF k[OF that]]]
    show ?thesis unfolding s using conjunct1[OF k[OF that]] goal by blast
  qed
  then show ?thesis by blast
qed


text \<open>
  The claim at work on the docstring example, \<open>s2.move(s1)\<close>: both nodes are under the
  root \<open>t3\<close>, which keeps its size 21.
\<close>

theorem move_size_conservation_witness:
  "\<exists>k. \<forall>fuel\<ge>k.
     TMTree_move fuel 2 1 docstring_tree \<noteq> OutOfFuel
     \<and> data_size (heap_of (TMTree_move fuel 2 1 docstring_tree) docstring_tree 0) = 21"
proof -
  have a1: "0 \<in> insert 1 (ancestors docstring_tree 1)"
    by (rule insertI2, rule ancestors.parent) (simp add: docstring_tree_nodes)
  have r1: "is_root_of docstring_tree 0 1"
    unfolding is_root_of_def using a1 by (simp add: docstring_tree_nodes)
  have r0: "is_root_of docstring_tree 0 0"
    unfolding is_root_of_def by (simp add: docstring_tree_nodes)
  have sz: "data_size (docstring_tree 0) = 21" by (simp add: docstring_tree_nodes)
  note th = move_size_conservation[OF docstring_tree_move_pre]
  show ?thesis
  proof (rule exE[OF th])
    fix k
    assume k: "\<forall>fuel\<ge>k.
           TMTree_move fuel 2 1 docstring_tree \<noteq> OutOfFuel
           \<and> (\<forall>rd rp. is_root_of docstring_tree rd 1 \<and> is_root_of docstring_tree rp 0 \<longrightarrow>
                 (rd \<noteq> rp \<longrightarrow>
                    data_size (heap_of (TMTree_move fuel 2 1 docstring_tree) docstring_tree rd)
                      = data_size (docstring_tree rd) + data_size (docstring_tree 2)
                    \<and> data_size (heap_of (TMTree_move fuel 2 1 docstring_tree) docstring_tree rp)
                      = data_size (docstring_tree rp) - data_size (docstring_tree 2))
                 \<and> (rd = rp \<longrightarrow>
                    (\<forall>x. x \<in> insert 1 (ancestors docstring_tree 1)
                          \<and> x \<in> insert 0 (ancestors docstring_tree 0) \<longrightarrow>
                       data_size (heap_of (TMTree_move fuel 2 1 docstring_tree) docstring_tree x)
                         = data_size (docstring_tree x))))"
    have "TMTree_move fuel 2 1 docstring_tree \<noteq> OutOfFuel
       \<and> data_size (heap_of (TMTree_move fuel 2 1 docstring_tree) docstring_tree 0) = 21"
      if "fuel \<ge> k" for fuel
    proof -
      note kk = k[THEN spec, THEN mp, OF that]
      note b = conjunct1[OF kk] and c = conjunct2[OF kk]
      from c[THEN spec, THEN spec, THEN mp, of 0 0] r1 r0
      have "\<forall>x. x \<in> insert 1 (ancestors docstring_tree 1)
                 \<and> x \<in> insert 0 (ancestors docstring_tree 0) \<longrightarrow>
               data_size (heap_of (TMTree_move fuel 2 1 docstring_tree) docstring_tree x)
                 = data_size (docstring_tree x)" by simp
      from this[THEN spec, THEN mp, of 0] a1
      have "data_size (heap_of (TMTree_move fuel 2 1 docstring_tree) docstring_tree 0)
              = data_size (docstring_tree 0)" by simp
      with b sz show ?thesis by simp
    qed
    then show ?thesis by blast
  qed
qed

section \<open>Moving a plain tree into a file\<close>






section \<open>Tiling\<close>

text \<open>
  The pixels of a rectangle \<open>(x, y, w, ht)\<close>: the points from \<open>(x, y)\<close> up to, but not
  including, \<open>(x + w, y + ht)\<close>.
\<close>

definition cells :: "rectangle \<Rightarrow> (int \<times> int) set" where
  "cells r = (case r of (x, y, w, ht) \<Rightarrow>
                {(px, py). x \<le> px \<and> px < x + w \<and> y \<le> py \<and> py < y + ht})"

definition covered :: "rectangle list \<Rightarrow> (int \<times> int) set" where
  "covered qs = (\<Union>q\<in>set qs. cells q)"



text \<open>
  The slices the specification gives to the subtrees with sizes \<open>ss\<close>, from the cursor
  \<open>(ux, uy)\<close> on: every subtree but the last gets the floor of its share of the side that
  is cut, the last one gets what remains.
\<close>

fun slices :: "bool \<Rightarrow> int list \<Rightarrow> int \<Rightarrow> int \<times> int \<Rightarrow> rectangle \<Rightarrow> rectangle list" where
  "slices by_width [] tot (ux, uy) (x, y, w, ht) = []"
| "slices by_width [s] tot (ux, uy) (x, y, w, ht) =
     [if by_width then (ux, uy, w + x - ux, ht) else (ux, uy, w, y + ht - uy)]"
| "slices by_width (s # rest) tot (ux, uy) (x, y, w, ht) =
     (if by_width then
        (ux, uy, (s * w) div tot, ht)
          # slices by_width rest tot (ux + (s * w) div tot, uy) (x, y, w, ht)
      else
        (ux, uy, w, (s * ht) div tot)
          # slices by_width rest tot (ux, uy + (s * ht) div tot) (x, y, w, ht))"

lemma covered_simps [simp]:
  "covered [] = {}" "covered (q # qs) = cells q \<union> covered qs"
  "covered (xs @ ys) = covered xs \<union> covered ys"
  by (auto simp: covered_def)






lemma length_slices: "length (slices bw ss tot ul r) = length ss"
  by (induction bw ss tot ul r rule: slices.induct) auto









section \<open>Layout of a subtree\<close>

text \<open>The node \<open>a\<close> and everything below it.\<close>

definition below :: "heap \<Rightarrow> addr \<Rightarrow> addr set" where
  "below h a = {x. x = a \<or> a \<in> ancestors h x}"

lemma below_self [simp]: "a \<in> below h a"
  by (simp add: below_def)














































end
